theory Spec2Isabelle
  imports Complex_Main "HOL-Library.AList" "HOL-Library.Log_Nat"
begin

section \<open>Errors as values\<close>

text \<open>
  The notebooks are Python: a raise aborts the enclosing call chain.  Every function of the
  model that can raise returns \<open>error + 'a\<close>, with \<open>Inl\<close> for the exception.  The external
  services and libraries (LLM chains, retriever, web search, UMAP, Gaussian mixture,
  embedding API) are parameters of the model and may fail with any error of their own.
\<close>

datatype error =
    KeyError
  | ValueError
  | TypeError
  | IndexError
  | ZeroDivisionError
  | GraphRecursionError
  | ExternalError string

definition bind :: "error + 'a \<Rightarrow> ('a \<Rightarrow> error + 'b) \<Rightarrow> error + 'b" where
  "bind m f = (case m of Inl e \<Rightarrow> Inl e | Inr x \<Rightarrow> f x)"

section \<open>The corrective RAG workflow (9\_Generation\_2)\<close>

subsection \<open>Graph state and external chains\<close>

type_synonym document = string

text \<open>
  \<open>state["documents"]\<close> holds a list of documents after \<open>retrieve\<close> and
  \<open>grade_documents\<close>, and one single \<open>Document\<close> object after \<open>web_search\<close>.
\<close>

datatype docs_value = DocList "document list" | OneDoc document

text \<open>
  \<open>GraphState\<close> is a \<open>TypedDict\<close>; a run starts from \<open>{"question": question}\<close>, so the
  other two keys may be absent, and reading an absent key raises \<open>KeyError\<close>.
\<close>

record GraphState =
  question :: string
  generation :: "string option"
  documents :: "docs_value option"

record crag_env =
  query_routing_chain :: "string \<Rightarrow> error + string"
  retriever :: "string \<Rightarrow> error + document list"
  web_search_tool :: "string \<Rightarrow> error + string list"
  fallback_chain :: "string \<Rightarrow> error + string"
  qa_chain :: "string \<Rightarrow> docs_value \<Rightarrow> error + string"
  grading_chain :: "document \<Rightarrow> string \<Rightarrow> error + string"
  hallucination_chain :: "docs_value \<Rightarrow> string \<Rightarrow> error + string"
  answer_grader_chain :: "string \<Rightarrow> string \<Rightarrow> error + string"

definition get_key :: "'a option \<Rightarrow> error + 'a" where
  "get_key v = (case v of None \<Rightarrow> Inl KeyError | Some x \<Rightarrow> Inr x)"

text \<open>Python's \<open>sep.join(parts)\<close>.\<close>

fun join :: "string \<Rightarrow> string list \<Rightarrow> string" where
  "join sep [] = []"
| "join sep [x] = x"
| "join sep (x # y # ys) = x @ sep @ join sep (y # ys)"

subsection \<open>Node functions\<close>

definition retrieve :: "crag_env \<Rightarrow> GraphState \<Rightarrow> error + GraphState" where
  "retrieve env state =
     bind (retriever env (question state)) (\<lambda>ds.
       Inr (state\<lparr>documents := Some (DocList ds)\<rparr>))"

definition web_search :: "crag_env \<Rightarrow> GraphState \<Rightarrow> error + GraphState" where
  "web_search env state =
     bind (web_search_tool env (question state)) (\<lambda>contents.
       Inr (state\<lparr>documents := Some (OneDoc (join [CHR 0x0A] contents))\<rparr>))"

definition fallback :: "crag_env \<Rightarrow> GraphState \<Rightarrow> error + GraphState" where
  "fallback env state =
     bind (fallback_chain env (question state)) (\<lambda>g.
       Inr (state\<lparr>generation := Some g\<rparr>))"

definition generate :: "crag_env \<Rightarrow> GraphState \<Rightarrow> error + GraphState" where
  "generate env state =
     bind (get_key (documents state)) (\<lambda>ds.
     bind (qa_chain env (question state) ds) (\<lambda>g.
       Inr (state\<lparr>generation := Some g\<rparr>)))"

text \<open>The loop of \<open>grade_documents\<close>: keep the documents graded \<open>'yes'\<close>, in order.\<close>

fun grade_loop :: "crag_env \<Rightarrow> string \<Rightarrow> document list \<Rightarrow> document list \<Rightarrow> error + document list" where
  "grade_loop env q filtered_docs [] = Inr filtered_docs"
| "grade_loop env q filtered_docs (doc # rest) =
     bind (grading_chain env doc q) (\<lambda>grade.
       if grade = ''yes'' then grade_loop env q (filtered_docs @ [doc]) rest
       else grade_loop env q filtered_docs rest)"

text \<open>
  \<open>grade_documents\<close> is wired only after \<open>retrieve\<close>, where \<open>documents\<close> is a list.  The
  model gives \<open>TypeError\<close> for the single-document value, which that wiring never passes.
\<close>

definition grade_documents :: "crag_env \<Rightarrow> GraphState \<Rightarrow> error + GraphState" where
  "grade_documents env state =
     bind (get_key (documents state)) (\<lambda>dv.
       case dv of
         OneDoc d \<Rightarrow> Inl TypeError
       | DocList ds \<Rightarrow>
           bind (grade_loop env (question state) [] ds) (\<lambda>filtered_docs.
             Inr (state\<lparr>documents := Some (DocList filtered_docs)\<rparr>)))"

subsection \<open>Conditional edges\<close>

definition route_question :: "crag_env \<Rightarrow> GraphState \<Rightarrow> error + string" where
  "route_question env state =
     bind (query_routing_chain env (question state)) (\<lambda>datasource.
       if datasource = ''vectorstore'' then Inr ''retrieve''
       else if datasource = ''web_search'' then Inr ''web_search''
       else Inr ''fallback'')"

text \<open>Python truthiness: only the empty list is falsy; a \<open>Document\<close> object is truthy.\<close>

fun falsy :: "docs_value \<Rightarrow> bool" where
  "falsy (DocList ds) = (ds = [])"
| "falsy (OneDoc d) = False"

definition decide_to_generate :: "GraphState \<Rightarrow> error + string" where
  "decide_to_generate state =
     bind (get_key (documents state)) (\<lambda>filtered_documents.
       if falsy filtered_documents then Inr ''web_search'' else Inr ''generate'')"

definition evaluate_response :: "crag_env \<Rightarrow> GraphState \<Rightarrow> error + string" where
  "evaluate_response env state =
     bind (get_key (documents state)) (\<lambda>ds.
     bind (get_key (generation state)) (\<lambda>g.
     bind (hallucination_chain env ds g) (\<lambda>hallucination_grade.
       if hallucination_grade = ''yes'' then
         bind (answer_grader_chain env (question state) g) (\<lambda>answer_grade.
           if answer_grade = ''yes'' then Inr ''useful'' else Inr ''notuseful'')
       else Inr ''not supported'')))"

subsection \<open>The wiring of the \<open>StateGraph\<close>\<close>

datatype node = START | Retrieve | WebSearch | Fallback | Generate | GradeDocuments | END

text \<open>The path maps of the three conditional edges, as written in the notebook.\<close>

definition entry_point_map :: "(string \<times> node) list" where
  "entry_point_map =
     [(''retrieve'', Retrieve), (''web_search'', WebSearch), (''fallback'', Fallback)]"

definition grade_documents_map :: "(string \<times> node) list" where
  "grade_documents_map = [(''web_search'', WebSearch), (''generate'', Generate)]"

definition generate_map :: "(string \<times> node) list" where
  "generate_map =
     [(''useful'', END), (''notuseful'', WebSearch), (''not supported'', Generate)]"

definition follow :: "(string \<times> node) list \<Rightarrow> string \<Rightarrow> error + node" where
  "follow path_map key = get_key (map_of path_map key)"

text \<open>What a node does to the state; \<open>START\<close> and \<open>END\<close> run no function.\<close>

fun run_node :: "crag_env \<Rightarrow> node \<Rightarrow> GraphState \<Rightarrow> error + GraphState" where
  "run_node env Retrieve state = retrieve env state"
| "run_node env WebSearch state = web_search env state"
| "run_node env Fallback state = fallback env state"
| "run_node env Generate state = generate env state"
| "run_node env GradeDocuments state = grade_documents env state"
| "run_node env START state = Inr state"
| "run_node env END state = Inr state"

text \<open>The node taken after a node has run, on the state that node returned.\<close>

fun next_node :: "crag_env \<Rightarrow> node \<Rightarrow> GraphState \<Rightarrow> error + node" where
  "next_node env START state = bind (route_question env state) (follow entry_point_map)"
| "next_node env Retrieve state = Inr GradeDocuments"
| "next_node env WebSearch state = Inr Generate"
| "next_node env GradeDocuments state = bind (decide_to_generate state) (follow grade_documents_map)"
| "next_node env Generate state = bind (evaluate_response env state) (follow generate_map)"
| "next_node env Fallback state = Inr END"
| "next_node env END state = Inr END"

text \<open>
  A run of the compiled graph from a node: the nodes executed, in order, and the outcome.
  The outcome is the final state when \<open>END\<close> is reached, the error of the first step that
  raises (nothing in the notebook catches it), or \<open>GraphRecursionError\<close> when the
  framework's step limit (the first argument) is used up.
\<close>

fun run_from :: "nat \<Rightarrow> crag_env \<Rightarrow> node \<Rightarrow> GraphState \<Rightarrow> node list \<times> (error + GraphState)" where
  "run_from 0 env n state = ([], Inl GraphRecursionError)"
| "run_from (Suc limit) env n state =
     (if n = END then ([], Inr state)
      else case run_node env n state of
             Inl e \<Rightarrow> ([n], Inl e)
           | Inr state' \<Rightarrow>
               (case next_node env n state' of
                  Inl e \<Rightarrow> ([n], Inl e)
                | Inr n' \<Rightarrow>
                    (case run_from limit env n' state' of
                       (path, outcome) \<Rightarrow> (n # path, outcome))))"

definition run_pipeline :: "nat \<Rightarrow> crag_env \<Rightarrow> string \<Rightarrow> node list \<times> (error + GraphState)" where
  "run_pipeline limit env q =
     run_from limit env START \<lparr>question = q, generation = None, documents = None\<rparr>"


section \<open>Reciprocal rank fusion (retrieval notebook)\<close>

text \<open>
  The scores are Python floats.  Their arithmetic is a parameter of the model: the float
  that the integer 0 becomes when a float is added to it, the float addition, the float
  \<open>1 / n\<close> of a non-zero integer \<open>n\<close>, and the comparison \<open><\<close> that sorting uses.  Nothing
  is assumed of the addition: float sums depend on the order in which the terms are
  added, and the model adds them in the order of the source.
\<close>

record 'f float_ops =
  f_zero :: 'f
  f_add :: "'f \<Rightarrow> 'f \<Rightarrow> 'f"
  f_recip :: "int \<Rightarrow> 'f"
  f_less :: "'f \<Rightarrow> 'f \<Rightarrow> bool"

text \<open>
  \<open>fused_scores\<close> is a Python dict: an association list in insertion order, read with
  \<open>map_of\<close> and written with \<open>AList.update\<close> (an existing key keeps its place, a new key
  goes to the end).  \<open>1 / (rank + k)\<close> raises \<open>ZeroDivisionError\<close> when \<open>rank + k = 0\<close>.
\<close>

fun rrf_docs ::
  "'f float_ops \<Rightarrow> ('doc \<Rightarrow> string) \<Rightarrow> int \<Rightarrow> nat \<Rightarrow> 'doc list \<Rightarrow> (string \<times> 'f) list \<Rightarrow>
     error + (string \<times> 'f) list" where
  "rrf_docs ops dumps k rank [] fused_scores = Inr fused_scores"
| "rrf_docs ops dumps k rank (doc # docs) fused_scores =
     (let doc_str = dumps doc;
          fused_scores' = (if map_of fused_scores doc_str = None
                           then AList.update doc_str (f_zero ops) fused_scores else fused_scores)
      in bind (get_key (map_of fused_scores' doc_str)) (\<lambda>previous_score.
           if int rank + k = 0 then Inl ZeroDivisionError
           else rrf_docs ops dumps k (Suc rank) docs
                  (AList.update doc_str (f_add ops previous_score (f_recip ops (int rank + k)))
                     fused_scores')))"

fun rrf_lists ::
  "'f float_ops \<Rightarrow> ('doc \<Rightarrow> string) \<Rightarrow> int \<Rightarrow> 'doc list list \<Rightarrow> (string \<times> 'f) list \<Rightarrow>
     error + (string \<times> 'f) list" where
  "rrf_lists ops dumps k [] fused_scores = Inr fused_scores"
| "rrf_lists ops dumps k (docs # results) fused_scores =
     bind (rrf_docs ops dumps k 0 docs fused_scores) (rrf_lists ops dumps k results)"

text \<open>
  \<open>sorted(items, key=score, reverse=True)\<close> is a stable sort by decreasing score that
  compares scores with \<open><\<close> only: an item stands before every item of smaller score, and
  items of which neither score is smaller keep their order.  Insertion from the right does
  the same: an item goes behind the items whose score is greater than its own.
\<close>

fun insert_desc :: "('f \<Rightarrow> 'f \<Rightarrow> bool) \<Rightarrow> 'a \<times> 'f \<Rightarrow> ('a \<times> 'f) list \<Rightarrow> ('a \<times> 'f) list" where
  "insert_desc lt x [] = [x]"
| "insert_desc lt x (y # ys) =
     (if lt (snd x) (snd y) then y # insert_desc lt x ys else x # y # ys)"

definition sorted_reverse :: "('f \<Rightarrow> 'f \<Rightarrow> bool) \<Rightarrow> ('a \<times> 'f) list \<Rightarrow> ('a \<times> 'f) list" where
  "sorted_reverse lt items = foldr (insert_desc lt) items []"

text \<open>\<open>loads\<close> and \<open>dumps\<close> are the framework's (de)serialisation of documents.\<close>

definition rrf ::
  "'f float_ops \<Rightarrow> (string \<Rightarrow> 'doc) \<Rightarrow> ('doc \<Rightarrow> string) \<Rightarrow> 'doc list list \<Rightarrow> int \<Rightarrow>
     error + ('doc \<times> 'f) list" where
  "rrf ops loads dumps results k =
     bind (rrf_lists ops dumps k results []) (\<lambda>fused_scores.
       Inr (map (\<lambda>(doc, score). (loads doc, score))
              (sorted_reverse (f_less ops) fused_scores)))"

definition rrf_default ::
  "'f float_ops \<Rightarrow> (string \<Rightarrow> 'doc) \<Rightarrow> ('doc \<Rightarrow> string) \<Rightarrow> 'doc list list \<Rightarrow> error + ('doc \<times> 'f) list" where
  "rrf_default ops loads dumps results = rrf ops loads dumps results 60"

text \<open>
  The score the reranking is meant to compute, written from its description: the sum, over
  every occurrence of the serialised document \<open>s\<close> in the ranked lists, of \<open>1 / (rank + k)\<close>
  with \<open>rank\<close> the 0-based position of the occurrence.  \<open>occurrences\<close> lists the ranks of
  the occurrences of \<open>s\<close>, list by list and position by position; \<open>add_ranks\<close> is the float
  sum of their terms, added in that order to a first value.
\<close>

definition occurrences_in :: "('doc \<Rightarrow> string) \<Rightarrow> nat \<Rightarrow> 'doc list \<Rightarrow> string \<Rightarrow> nat list" where
  "occurrences_in dumps r docs s =
     map fst (filter (\<lambda>(rank, doc). dumps doc = s) (enumerate r docs))"

definition occurrences :: "('doc \<Rightarrow> string) \<Rightarrow> 'doc list list \<Rightarrow> string \<Rightarrow> nat list" where
  "occurrences dumps results s = concat (map (\<lambda>docs. occurrences_in dumps 0 docs s) results)"

definition add_ranks :: "'f float_ops \<Rightarrow> int \<Rightarrow> 'f \<Rightarrow> nat list \<Rightarrow> 'f" where
  "add_ranks ops k first ranks =
     foldl (\<lambda>acc rank. f_add ops acc (f_recip ops (int rank + k))) first ranks"

text \<open>
  What the result of the reranking should be: one pair per distinct serialised document,
  each with the float sum of its terms, and no pair before a pair of greater score.
\<close>

definition fused_ranking ::
  "'f float_ops \<Rightarrow> (string \<Rightarrow> 'doc) \<Rightarrow> ('doc \<Rightarrow> string) \<Rightarrow> int \<Rightarrow> 'doc list list \<Rightarrow>
     ('doc \<times> 'f) list \<Rightarrow> bool" where
  "fused_ranking ops loads dumps k results out \<longleftrightarrow>
     (\<exists>keys. distinct keys
        \<and> set keys = dumps ` (\<Union>docs\<in>set results. set docs)
        \<and> out = map (\<lambda>s. (loads s, add_ranks ops k (f_zero ops) (occurrences dumps results s))) keys
        \<and> sorted_wrt (\<lambda>a b. \<not> f_less ops (snd a) (snd b)) out)"

text \<open>
  What sorting needs of \<open><\<close>, and what \<open><\<close> on floats other than NaN gives (the scores are
  finite sums of finite terms): it is asymmetric, and being not smaller is transitive.
\<close>

definition float_order :: "'f float_ops \<Rightarrow> bool" where
  "float_order ops \<longleftrightarrow>
     (\<forall>a b. f_less ops a b \<longrightarrow> \<not> f_less ops b a)
     \<and> (\<forall>a b c. \<not> f_less ops a b \<and> \<not> f_less ops b c \<longrightarrow> \<not> f_less ops a c)"

text \<open>
  The same sum in exact arithmetic, and exact arithmetic as an instance of the
  parameter: with it, the float sum is the exact sum.
\<close>

definition rank_sum :: "('doc \<Rightarrow> string) \<Rightarrow> int \<Rightarrow> nat \<Rightarrow> 'doc list \<Rightarrow> string \<Rightarrow> rat" where
  "rank_sum dumps k r docs s =
     (\<Sum>(rank, doc)\<leftarrow>enumerate r docs. if dumps doc = s then 1 / of_int (int rank + k) else 0)"

definition reciprocal_rank_sum :: "('doc \<Rightarrow> string) \<Rightarrow> int \<Rightarrow> 'doc list list \<Rightarrow> string \<Rightarrow> rat" where
  "reciprocal_rank_sum dumps k results s = (\<Sum>docs\<leftarrow>results. rank_sum dumps k 0 docs s)"

definition exact_ops :: "rat float_ops" where
  "exact_ops = \<lparr>f_zero = 0, f_add = (+), f_recip = (\<lambda>n. 1 / of_int n), f_less = (<)\<rparr>"

text \<open>The score a key has in the dict; the first value of the sum when the key is absent.\<close>

definition score_of :: "'f float_ops \<Rightarrow> (string \<times> 'f) list \<Rightarrow> string \<Rightarrow> 'f" where
  "score_of ops fused s = (case map_of fused s of None \<Rightarrow> f_zero ops | Some v \<Rightarrow> v)"

section \<open>RAPTOR: recursive embedding, clustering and summarisation (6\_Indexing)\<close>

subsection \<open>Steps of a run, external libraries\<close>

text \<open>
  An embedding is a row of numbers.  The notebook only compares rows for equality and
  hands them to the libraries; the model takes exact rationals for the floats (no NaN).
\<close>

type_synonym vec = "rat list"

text \<open>
  A run is observed through the steps it takes: the calls of the embedding API, of UMAP
  (from \<open>global_cluster_embeddings\<close> or \<open>local_cluster_embeddings\<close>, with \<open>n_neighbors\<close> and
  \<open>n_components\<close>), of \<open>GaussianMixture(n_components, random_state).fit\<close>, of the
  summarising LLM chain, and the entry into \<open>get_optimal_clusters\<close>.
\<close>

datatype event =
    Embed "string list"
  | GlobalUMAP "vec list" nat int
  | LocalUMAP "vec list" nat int
  | OptimalClusters "vec list"
  | GMMFit nat int "vec list"
  | LLMInvoke string

type_synonym 'a io = "event list \<times> (error + 'a)"

definition io_return :: "'a \<Rightarrow> 'a io" where
  "io_return x = ([], Inr x)"

definition io_raise :: "error \<Rightarrow> 'a io" where
  "io_raise e = ([], Inl e)"

definition io_lift :: "error + 'a \<Rightarrow> 'a io" where
  "io_lift r = ([], r)"

definition io_call :: "event \<Rightarrow> error + 'a \<Rightarrow> 'a io" where
  "io_call ev r = ([ev], r)"

definition io_bind :: "'a io \<Rightarrow> ('a \<Rightarrow> 'b io) \<Rightarrow> 'b io" where
  "io_bind m f =
     (case m of
        (t, Inl e) \<Rightarrow> (t, Inl e)
      | (t, Inr x) \<Rightarrow> (case f x of (t', r) \<Rightarrow> (t @ t', r)))"

text \<open>
  The libraries behind the notebook (the parameter \<open>dim\<close> of the notebook's functions is
  written \<open>dims\<close> throughout).  \<open>gm_bic n rs X\<close> is
  \<open>GaussianMixture(n, rs).fit(X).bic(X)\<close>, \<open>gm_predict_proba n rs X\<close> is
  \<open>GaussianMixture(n, rs).fit(X).predict_proba(X)\<close> (one row of posterior probabilities
  per row of \<open>X\<close>), \<open>umap_fit_transform nn d X\<close> is
  \<open>UMAP(n_neighbors=nn, n_components=d, metric="cosine").fit_transform(X)\<close>.
\<close>

record raptor_env =
  embed_documents :: "string list \<Rightarrow> error + vec list"
  umap_fit_transform :: "nat \<Rightarrow> int \<Rightarrow> vec list \<Rightarrow> error + vec list"
  gm_bic :: "nat \<Rightarrow> int \<Rightarrow> vec list \<Rightarrow> error + rat"
  gm_predict_proba :: "nat \<Rightarrow> int \<Rightarrow> vec list \<Rightarrow> error + rat list list"
  llm_summarize :: "string \<Rightarrow> error + string"

definition RANDOM_SEED :: int where
  "RANDOM_SEED = 224"

subsection \<open>Dimensionality reduction\<close>

text \<open>\<open>int(m ** 0.5)\<close> for a natural number \<open>m\<close>: the integer square root.\<close>

fun sqrt_down :: "nat \<Rightarrow> nat \<Rightarrow> nat" where
  "sqrt_down m 0 = 0"
| "sqrt_down m (Suc r) = (if Suc r * Suc r \<le> m then Suc r else sqrt_down m r)"

definition int_sqrt :: "nat \<Rightarrow> nat" where
  "int_sqrt m = sqrt_down m m"

text \<open>
  With no embeddings, \<open>(len(embeddings) - 1) ** 0.5\<close> is a complex number and \<open>int\<close> of it
  raises \<open>TypeError\<close>.
\<close>

definition global_cluster_embeddings :: "raptor_env \<Rightarrow> vec list \<Rightarrow> int \<Rightarrow> (vec list) io" where
  "global_cluster_embeddings env embeddings dims =
     (if length embeddings = 0 then io_raise TypeError
      else let n_neighbors = int_sqrt (length embeddings - 1)
           in io_call (GlobalUMAP embeddings n_neighbors dims)
                (umap_fit_transform env n_neighbors dims embeddings))"

definition local_cluster_embeddings :: "raptor_env \<Rightarrow> vec list \<Rightarrow> int \<Rightarrow> (vec list) io" where
  "local_cluster_embeddings env embeddings dims =
     io_call (LocalUMAP embeddings 10 dims) (umap_fit_transform env 10 dims embeddings)"

subsection \<open>Gaussian-mixture clustering\<close>

fun bic_loop :: "raptor_env \<Rightarrow> vec list \<Rightarrow> int \<Rightarrow> nat list \<Rightarrow> rat list \<Rightarrow> (rat list) io" where
  "bic_loop env embeddings random_state [] bics = io_return bics"
| "bic_loop env embeddings random_state (n # ns) bics =
     io_bind (io_call (GMMFit n random_state embeddings) (gm_bic env n random_state embeddings))
       (\<lambda>b. bic_loop env embeddings random_state ns (bics @ [b]))"

fun first_index :: "'a list \<Rightarrow> 'a \<Rightarrow> nat" where
  "first_index [] y = 0"
| "first_index (x # xs) y = (if x = y then 0 else Suc (first_index xs y))"

text \<open>\<open>np.argmin\<close>: the first position of the least value; \<open>ValueError\<close> on an empty sequence.\<close>

definition argmin :: "rat list \<Rightarrow> error + nat" where
  "argmin xs = (case xs of [] \<Rightarrow> Inl ValueError | x # rest \<Rightarrow> Inr (first_index xs (fold min rest x)))"

definition get_optimal_clusters :: "raptor_env \<Rightarrow> vec list \<Rightarrow> nat \<Rightarrow> int \<Rightarrow> nat io" where
  "get_optimal_clusters env embeddings max_clusters random_state =
     (let max_clusters' = min max_clusters (length embeddings);
          n_clusters = [1..<max_clusters']
      in io_bind (io_call (OptimalClusters embeddings) (Inr ())) (\<lambda>_.
         io_bind (bic_loop env embeddings random_state n_clusters []) (\<lambda>bics.
         io_bind (io_lift (argmin bics)) (\<lambda>i.
           io_return (n_clusters ! i)))))"

text \<open>\<open>np.where(prob > threshold)[0]\<close>: the component indices above the threshold.\<close>

definition above_threshold :: "rat \<Rightarrow> rat list \<Rightarrow> nat list" where
  "above_threshold threshold prob = filter (\<lambda>j. prob ! j > threshold) [0..<length prob]"

definition GMM_cluster :: "raptor_env \<Rightarrow> vec list \<Rightarrow> rat \<Rightarrow> int \<Rightarrow> (nat list list \<times> nat) io" where
  "GMM_cluster env embeddings threshold random_state =
     io_bind (get_optimal_clusters env embeddings 50 RANDOM_SEED) (\<lambda>n_clusters.
     io_bind (io_call (GMMFit n_clusters random_state embeddings)
                (gm_predict_proba env n_clusters random_state embeddings)) (\<lambda>probs.
       io_return (map (above_threshold threshold) probs, n_clusters)))"


subsection \<open>Global, then local clustering\<close>

text \<open>
  \<open>xs[mask]\<close> with a list of booleans turned into an array: the rows whose flag is true.
  numpy raises \<open>IndexError\<close> when the mask has another length than \<open>xs\<close>, and when the
  mask is built from an empty list (an empty array of floats is no valid index).
\<close>

definition mask_select :: "'a list \<Rightarrow> bool list \<Rightarrow> error + 'a list" where
  "mask_select xs flags =
     (if flags = [] \<or> length flags \<noteq> length xs then Inl IndexError
      else Inr (map fst (filter snd (zip xs flags))))"

text \<open>
  \<open>np.where((embeddings == local[:, None]).all(-1))[1]\<close>: for each row of \<open>local\<close> in turn,
  the positions of all rows of \<open>embeddings\<close> equal to it.
\<close>

definition matching_indices :: "vec list \<Rightarrow> vec list \<Rightarrow> nat list" where
  "matching_indices embeddings local =
     concat (map (\<lambda>m. filter (\<lambda>idx. embeddings ! idx = m) [0..<length embeddings]) local)"

fun append_label :: "nat list \<Rightarrow> nat \<Rightarrow> nat list list \<Rightarrow> nat list list" where
  "append_label [] label all_local_clusters = all_local_clusters"
| "append_label (idx # indices) label all_local_clusters =
     append_label indices label
       (all_local_clusters[idx := all_local_clusters ! idx @ [label]])"

text \<open>The loop \<open>for j in range(n_local_clusters)\<close>.\<close>

fun assign_local ::
  "vec list \<Rightarrow> vec list \<Rightarrow> nat list list \<Rightarrow> nat \<Rightarrow> nat list \<Rightarrow> nat list list \<Rightarrow> error + nat list list" where
  "assign_local embeddings members local_clusters total_clusters [] all_local_clusters =
     Inr all_local_clusters"
| "assign_local embeddings members local_clusters total_clusters (j # js) all_local_clusters =
     bind (mask_select members (map (\<lambda>lc. j \<in> set lc) local_clusters)) (\<lambda>local_members.
       assign_local embeddings members local_clusters total_clusters js
         (append_label (matching_indices embeddings local_members) (j + total_clusters)
            all_local_clusters))"

text \<open>
  The local clustering of the members of one global cluster: at most \<open>dim + 1\<close> members
  get the single local cluster 0 directly, more are reduced by UMAP and clustered by the
  mixture model.
\<close>

definition local_clustering ::
  "raptor_env \<Rightarrow> vec list \<Rightarrow> int \<Rightarrow> rat \<Rightarrow> (nat list list \<times> nat) io" where
  "local_clustering env members dims threshold =
     (if int (length members) \<le> dims + 1 then io_return (map (\<lambda>_. [0]) members, 1)
      else io_bind (local_cluster_embeddings env members dims) (\<lambda>reduced_embeddings_local.
             GMM_cluster env reduced_embeddings_local threshold 0))"

text \<open>The body of the loop \<open>for i in range(n_global_clusters)\<close>, on the loop's two variables.\<close>

definition global_cluster_step ::
  "raptor_env \<Rightarrow> vec list \<Rightarrow> int \<Rightarrow> rat \<Rightarrow> nat list list \<Rightarrow> nat \<Rightarrow> nat list list \<times> nat \<Rightarrow>
     (nat list list \<times> nat) io" where
  "global_cluster_step env embeddings dims threshold global_clusters i st =
     (case st of (all_local_clusters, total_clusters) \<Rightarrow>
        io_bind (io_lift (mask_select embeddings (map (\<lambda>gc. i \<in> set gc) global_clusters)))
          (\<lambda>members.
             if length members = 0 then io_return (all_local_clusters, total_clusters)
             else io_bind (local_clustering env members dims threshold)
                    (\<lambda>(local_clusters, n_local_clusters).
                       io_bind (io_lift (assign_local embeddings members local_clusters
                                  total_clusters [0..<n_local_clusters] all_local_clusters))
                         (\<lambda>all_local_clusters'.
                            io_return (all_local_clusters', total_clusters + n_local_clusters)))))"

fun global_cluster_loop ::
  "raptor_env \<Rightarrow> vec list \<Rightarrow> int \<Rightarrow> rat \<Rightarrow> nat list list \<Rightarrow> nat list \<Rightarrow> nat list list \<times> nat \<Rightarrow>
     (nat list list \<times> nat) io" where
  "global_cluster_loop env embeddings dims threshold global_clusters [] st = io_return st"
| "global_cluster_loop env embeddings dims threshold global_clusters (i # rest) st =
     io_bind (global_cluster_step env embeddings dims threshold global_clusters i st)
       (global_cluster_loop env embeddings dims threshold global_clusters rest)"

definition perform_clustering :: "raptor_env \<Rightarrow> vec list \<Rightarrow> int \<Rightarrow> rat \<Rightarrow> (nat list list) io" where
  "perform_clustering env embeddings dims threshold =
     (if int (length embeddings) \<le> dims + 1 then io_return (map (\<lambda>_. [0]) embeddings)
      else
        io_bind (global_cluster_embeddings env embeddings dims) (\<lambda>reduced_embeddings_global.
        io_bind (GMM_cluster env reduced_embeddings_global threshold 0)
          (\<lambda>(global_clusters, n_global_clusters).
        io_bind (global_cluster_loop env embeddings dims threshold global_clusters
                   [0..<n_global_clusters] (map (\<lambda>_. []) embeddings, 0))
          (\<lambda>(all_local_clusters, total_clusters). io_return all_local_clusters))))"

subsection \<open>Embedding, clustering and summarising one level\<close>

definition embed :: "raptor_env \<Rightarrow> string list \<Rightarrow> (vec list) io" where
  "embed env texts = io_call (Embed texts) (embed_documents env texts)"

text \<open>The rows of the two data frames.\<close>

record clusters_row =
  c_text :: string
  c_embd :: vec
  c_cluster :: "nat list"

record summary_row =
  s_summaries :: string
  s_level :: int
  s_cluster :: nat

text \<open>
  The columns \<open>text\<close>, \<open>embd\<close> and \<open>cluster\<close> are assigned after the clustering; pandas raises
  \<open>ValueError\<close> for a column of another length than the frame.  The embedding API
  returns one vector per text; the model raises \<open>ValueError\<close> for every other answer, also
  for vectors returned for an empty list of texts, where pandas would re-index the empty
  frame and a later step would raise.
\<close>

definition embed_cluster_texts :: "raptor_env \<Rightarrow> string list \<Rightarrow> (clusters_row list) io" where
  "embed_cluster_texts env texts =
     io_bind (embed env texts) (\<lambda>text_embeddings_np.
     io_bind (perform_clustering env text_embeddings_np 10 (1 / 10)) (\<lambda>cluster_labels.
       if length text_embeddings_np \<noteq> length texts then io_raise ValueError
       else io_return
              (map (\<lambda>(t, e, c). \<lparr>c_text = t, c_embd = e, c_cluster = c\<rparr>)
                 (zip texts (zip text_embeddings_np cluster_labels)))))"

definition fmt_txt :: "(string \<times> vec \<times> nat) list \<Rightarrow> string" where
  "fmt_txt df = join (''--- --- '' @ [CHR 0x0A] @ '' --- --- '') (map fst df)"

text \<open>pandas' \<open>unique()\<close>: the distinct values in order of first appearance.\<close>

fun unique :: "'a list \<Rightarrow> 'a list" where
  "unique [] = []"
| "unique (x # xs) = x # unique (filter (\<lambda>y. y \<noteq> x) xs)"

fun summarize_clusters ::
  "raptor_env \<Rightarrow> (string \<times> vec \<times> nat) list \<Rightarrow> nat list \<Rightarrow> string list \<Rightarrow> (string list) io" where
  "summarize_clusters env expanded_df [] summaries = io_return summaries"
| "summarize_clusters env expanded_df (i # rest) summaries =
     (let df_cluster = filter (\<lambda>(t, e, c). c = i) expanded_df;
          formatted_txt = fmt_txt df_cluster
      in io_bind (io_call (LLMInvoke formatted_txt) (llm_summarize env formatted_txt))
           (\<lambda>summary. summarize_clusters env expanded_df rest (summaries @ [summary])))"

text \<open>
  With no (text, cluster) pair at all, \<open>expanded_df\<close> is a frame without columns and
  \<open>expanded_df["cluster"]\<close> raises \<open>KeyError\<close>.
\<close>

definition embed_cluster_summarize_texts ::
  "raptor_env \<Rightarrow> string list \<Rightarrow> int \<Rightarrow> (clusters_row list \<times> summary_row list) io" where
  "embed_cluster_summarize_texts env texts level =
     io_bind (embed_cluster_texts env texts) (\<lambda>df_clusters.
       let expanded_list =
             concat (map (\<lambda>row. map (\<lambda>c. (c_text row, c_embd row, c)) (c_cluster row)) df_clusters)
       in if expanded_list = [] then io_raise KeyError
          else
            let all_clusters = unique (map (\<lambda>(t, e, c). c) expanded_list)
            in io_bind (summarize_clusters env expanded_list all_clusters []) (\<lambda>summaries.
                 io_return
                   (df_clusters,
                    map (\<lambda>(s, c). \<lparr>s_summaries = s, s_level = level, s_cluster = c\<rparr>)
                      (zip summaries all_clusters))))"

subsection \<open>The recursion over levels\<close>

type_synonym level_results = "(int \<times> clusters_row list \<times> summary_row list) list"

text \<open>\<open>results.update(next_level_results)\<close> on dicts kept in insertion order.\<close>

definition dict_update :: "('k \<times> 'v) list \<Rightarrow> ('k \<times> 'v) list \<Rightarrow> ('k \<times> 'v) list" where
  "dict_update results other = fold (\<lambda>(k, v). AList.update k v) other results"

text \<open>\<open>df_summary["cluster"].nunique()\<close>.\<close>

definition nunique :: "summary_row list \<Rightarrow> nat" where
  "nunique df_summary = length (remdups (map s_cluster df_summary))"

function recursive_embed_cluster_summarize ::
  "raptor_env \<Rightarrow> string list \<Rightarrow> int \<Rightarrow> int \<Rightarrow> level_results io" where
  "recursive_embed_cluster_summarize env texts level n_levels =
     (case embed_cluster_summarize_texts env texts level of
        (t, Inl e) \<Rightarrow> (t, Inl e)
      | (t, Inr (df_clusters, df_summary)) \<Rightarrow>
          (if level < n_levels \<and> nunique df_summary > 1 then
             (case recursive_embed_cluster_summarize env (map s_summaries df_summary)
                     (level + 1) n_levels of
                (t', Inl e) \<Rightarrow> (t @ t', Inl e)
              | (t', Inr next_level_results) \<Rightarrow>
                  (t @ t', Inr (dict_update [(level, (df_clusters, df_summary))] next_level_results)))
           else (t, Inr [(level, (df_clusters, df_summary))])))"
  by pat_completeness auto
termination
  by (relation "measure (\<lambda>(env, texts, level, n_levels). nat (n_levels - level))") auto

declare recursive_embed_cluster_summarize.simps [simp del]


section \<open>Building the vector stores\<close>

text \<open>
  Durable storage is a map from directory names to what the vector database keeps there:
  the stored texts with their embedding vectors.  \<open>Chroma\<close> is external.  Its contract,
  as the notebooks use it: a store created with a \<open>persist_directory\<close> opens the collection
  kept in that directory, adds the embedded documents, and writes the collection back
  (automatically, and again on \<open>persist()\<close>); a store created without one lives in memory.
\<close>

type_synonym disk = "string \<Rightarrow> (document \<times> vec) list option"

record vectorstore =
  vs_entries :: "(document \<times> vec) list"
  vs_persist_directory :: "string option"

definition chroma_flush :: "vectorstore \<Rightarrow> disk \<Rightarrow> disk" where
  "chroma_flush vs d =
     (case vs_persist_directory vs of None \<Rightarrow> d | Some dir \<Rightarrow> d(dir \<mapsto> vs_entries vs))"

definition chroma_open :: "string option \<Rightarrow> disk \<Rightarrow> (document \<times> vec) list" where
  "chroma_open persist_directory d =
     (case persist_directory of
        None \<Rightarrow> []
      | Some dir \<Rightarrow> (case d dir of None \<Rightarrow> [] | Some kept \<Rightarrow> kept))"

definition Chroma_from_documents ::
  "(string list \<Rightarrow> error + vec list) \<Rightarrow> document list \<Rightarrow> string option \<Rightarrow> disk \<Rightarrow>
     error + vectorstore \<times> disk" where
  "Chroma_from_documents embedding docs persist_directory d =
     bind (embedding docs) (\<lambda>vecs.
       let vs = \<lparr>vs_entries = chroma_open persist_directory d @ zip docs vecs,
                 vs_persist_directory = persist_directory\<rparr>
       in Inr (vs, chroma_flush vs d))"

definition persist :: "vectorstore \<Rightarrow> disk \<Rightarrow> disk" where
  "persist vs d = chroma_flush vs d"

text \<open>
  The indexing cell of the retrieval notebooks: load the PDFs of \<open>data/\<close>, split them into
  chunks, build the store with \<open>persist_directory="data/vectorstore"\<close>, call \<open>persist()\<close>.
\<close>

definition build_vectorstore ::
  "(string \<Rightarrow> error + document list) \<Rightarrow> (document list \<Rightarrow> document list) \<Rightarrow>
   (string list \<Rightarrow> error + vec list) \<Rightarrow> disk \<Rightarrow> error + vectorstore \<times> disk" where
  "build_vectorstore loader split_documents embedding d =
     bind (loader ''data/'') (\<lambda>documents.
       let text_chunks = split_documents documents
       in bind (Chroma_from_documents embedding text_chunks (Some ''data/vectorstore'') d)
            (\<lambda>(vectorstore, d'). Inr (vectorstore, persist vectorstore d')))"

text \<open>\<open>generate_vectorstores(file, dir)\<close> of the routing notebook.\<close>

definition generate_vectorstores ::
  "(string \<Rightarrow> error + document list) \<Rightarrow> (document list \<Rightarrow> document list) \<Rightarrow>
   (string list \<Rightarrow> error + vec list) \<Rightarrow> string \<Rightarrow> string \<Rightarrow> disk \<Rightarrow> error + vectorstore \<times> disk" where
  "generate_vectorstores loader split_documents embedding file dir d =
     bind (loader file) (\<lambda>documents.
       let text_chunks = split_documents documents
       in bind (Chroma_from_documents embedding text_chunks (Some dir) d)
            (\<lambda>(vectorstore, d'). Inr (vectorstore, persist vectorstore d')))"

text \<open>
  The store of the RAPTOR notebook: the leaf texts and the summaries of every level, by
  increasing level, with no \<open>persist_directory\<close>.
\<close>

definition raptor_vectorstore ::
  "(string list \<Rightarrow> error + vec list) \<Rightarrow> string list \<Rightarrow> level_results \<Rightarrow> disk \<Rightarrow>
     error + vectorstore \<times> disk" where
  "raptor_vectorstore embedding leaf_texts results d =
     (let all_texts =
            leaf_texts @ concat (map (\<lambda>(level, df_clusters, df_summary). map s_summaries df_summary)
                                   (sort_key fst results))
      in Chroma_from_documents embedding all_texts None d)"

section \<open>Example services\<close>

text \<open>
  Concrete stand-ins for the external services, to run the model on concrete inputs.
  \<open>crag_with r h a\<close> routes every question to the vector store, where retrieval gives \<open>r\<close>,
  grades every retrieved document irrelevant, and grades every generation \<open>h\<close> for being
  grounded and \<open>a\<close> for answering the question.
\<close>

definition crag_with :: "error + document list \<Rightarrow> string \<Rightarrow> string \<Rightarrow> crag_env" where
  "crag_with r h a =
     \<lparr>query_routing_chain = (\<lambda>q. Inr ''vectorstore''),
      retriever = (\<lambda>q. r),
      web_search_tool = (\<lambda>q. Inr [''w1'', ''w2'']),
      fallback_chain = (\<lambda>q. Inr ''hello''),
      qa_chain = (\<lambda>q ds. Inr ''answer''),
      grading_chain = (\<lambda>doc q. Inr ''no''),
      hallucination_chain = (\<lambda>ds g. Inr h),
      answer_grader_chain = (\<lambda>q g. Inr a)\<rparr>"

definition crag_example :: crag_env where
  "crag_example = crag_with (Inr [''d1'', ''d2'']) ''yes'' ''yes''"

text \<open>A service that answers every question from the model's own knowledge.\<close>

definition crag_chat :: crag_env where
  "crag_chat = (crag_example\<lparr>query_routing_chain := (\<lambda>q. Inr ''fallback'')\<rparr>)"

text \<open>A service whose grader finds the first of the two retrieved documents relevant.\<close>

definition crag_relevant :: crag_env where
  "crag_relevant =
     (crag_example\<lparr>grading_chain := (\<lambda>doc q. Inr (if doc = ''d1'' then ''yes'' else ''no''))\<rparr>)"

text \<open>
  \<open>raptor_example\<close> embeds a text as its length, lets UMAP return its input, prefers two
  mixture components, puts the point \<open>[5]\<close> into the second component and every other
  point into the first, with probability 1, and summarises a context by its first two
  characters.
\<close>

definition raptor_example :: raptor_env where
  "raptor_example =
     \<lparr>embed_documents = (\<lambda>texts. Inr (map (\<lambda>t. [of_nat (length t)]) texts)),
      umap_fit_transform = (\<lambda>n_neighbors n_components X. Inr X),
      gm_bic = (\<lambda>n rs X. Inr (if n = 2 then 0 else 1)),
      gm_predict_proba = (\<lambda>n rs X.
         Inr (map (\<lambda>x. map (\<lambda>j. if j = (if x = [5] then min 1 (n - 1) else 0) then 1 else 0)
                          [0..<n]) X)),
      llm_summarize = (\<lambda>context. Inr (take 2 context))\<rparr>"

definition twelve_texts :: "string list" where
  "twelve_texts =
     [''a'', ''ab'', ''abc'', ''abcd'', ''abcde'', ''abcdef'', ''abcdefg'', ''abcdefgh'',
      ''abcdefghi'', ''abcdefghij'', ''abcdefghijk'', ''abcdefghijkl'']"

text \<open>
  An arithmetic that rounds: every result is rounded to 53 significant bits, ties to
  even, as binary64 does within its normal range (the exponent is not bounded here; the
  scores of the examples are far from its bounds).  Floats are the rationals they stand
  for.  For a positive \<open>x = p / q\<close> in lowest terms and \<open>d\<close> the difference of the bit
  lengths of \<open>p\<close> and \<open>q\<close>, \<open>x\<close> lies between \<open>2^(d - 1)\<close> and \<open>2^(d + 1)\<close>; \<open>e\<close> is the
  exponent of the last bit that is kept, so that \<open>x / 2^e\<close> lies from \<open>2^52\<close> up to \<open>2^53\<close>.
\<close>

definition pow2 :: "int \<Rightarrow> rat" where
  "pow2 e = (if 0 \<le> e then 2 ^ nat e else 1 / 2 ^ nat (- e))"

definition round_half_even :: "rat \<Rightarrow> int" where
  "round_half_even m =
     (let f = \<lfloor>m\<rfloor>; d = m - of_int f
      in if d < 1 / 2 then f else if 1 / 2 < d then f + 1 else if even f then f else f + 1)"

definition round53 :: "rat \<Rightarrow> rat" where
  "round53 x =
     (if x = 0 then 0
      else case quotient_of \<bar>x\<bar> of
             (p, q) \<Rightarrow>
               let d = bitlen p - bitlen q;
                   e = (if \<bar>x\<bar> * pow2 (53 - d) < 2 ^ 53 then d - 53 else d - 52)
               in sgn x * of_int (round_half_even (\<bar>x\<bar> * pow2 (- e))) * pow2 e)"

definition binary64_ops :: "rat float_ops" where
  "binary64_ops =
     \<lparr>f_zero = 0, f_add = (\<lambda>a b. round53 (a + b)), f_recip = (\<lambda>n. round53 (1 / of_int n)),
      f_less = (<)\<rparr>"

text \<open>
  Four ranked lists in which the documents \<open>A\<close> and \<open>B\<close> stand at the same ranks, in
  another order of lists.
\<close>

definition four_rankings :: "string list list" where
  "four_rankings =
     [[''z'', ''A'', ''B''], [''z'', ''A'', ''y'', ''B''], [''z'', ''B'', ''A''],
      [''z'', ''B'', ''y'', ''A'']]"

text \<open>A loader that finds one document, whatever the path.\<close>

definition pdf_loader :: "string \<Rightarrow> error + document list" where
  "pdf_loader path = Inr [''QLoRA paper'']"

section \<open>Notions used to state the properties of the RAPTOR routine\<close>

text \<open>
  The contract of UMAP's \<open>fit_transform\<close> that the clustering relies on: the result has
  one row per row of the input.
\<close>

definition umap_keeps_rows :: "raptor_env \<Rightarrow> bool" where
  "umap_keeps_rows env \<longleftrightarrow>
     (\<forall>n_neighbors n_components X Y.
        umap_fit_transform env n_neighbors n_components X = Inr Y \<longrightarrow> length Y = length X)"

text \<open>The BIC of the mixture with \<open>n\<close> components, where fitting it succeeds.\<close>

definition bic_value :: "raptor_env \<Rightarrow> int \<Rightarrow> vec list \<Rightarrow> nat \<Rightarrow> rat" where
  "bic_value env random_state X n = (case gm_bic env n random_state X of Inl e \<Rightarrow> 0 | Inr b \<Rightarrow> b)"

text \<open>
  Every level of the recursion calls the embedding API once, and nothing else does: the
  number of \<open>Embed\<close> steps of a run is the number of levels it has worked on.
\<close>

fun is_embed :: "event \<Rightarrow> bool" where
  "is_embed (Embed texts) = True"
| "is_embed ev = False"

definition levels_run :: "event list \<Rightarrow> nat" where
  "levels_run t = length (filter is_embed t)"










section \<open>Properties of the corrective RAG workflow\<close>

lemma bind_Inr: "bind m f = Inr y \<longleftrightarrow> (\<exists>x. m = Inr x \<and> f x = Inr y)"
  by (cases m) (auto simp: bind_def)


lemma follow_entry_not_END: "follow entry_point_map k \<noteq> Inr END"
  by (auto simp: follow_def entry_point_map_def get_key_def split: option.splits if_splits)

lemma follow_grade_not_END: "follow grade_documents_map k \<noteq> Inr END"
  by (auto simp: follow_def grade_documents_map_def get_key_def split: option.splits if_splits)

lemma follow_generate_END: "follow generate_map k = Inr END \<Longrightarrow> k = ''useful''"
  by (auto simp: follow_def generate_map_def get_key_def split: option.splits if_splits)

lemma next_node_END:
  assumes "next_node env n state = Inr END" and "n \<noteq> END"
  shows "n = Fallback \<or> (n = Generate \<and> evaluate_response env state = Inr ''useful'')"
proof (cases n)
  case START
  with assms show ?thesis by (auto simp: bind_Inr follow_entry_not_END)
next
  case GradeDocuments
  with assms show ?thesis by (auto simp: bind_Inr follow_grade_not_END)
next
  case Generate
  with assms obtain k where "evaluate_response env state = Inr k" "follow generate_map k = Inr END"
    by (auto simp: bind_Inr)
  with Generate show ?thesis by (auto dest: follow_generate_END)
qed (use assms in auto)

lemma run_from_exit:
  "run_from limit env n state = (path, Inr final) \<Longrightarrow> n \<noteq> END \<Longrightarrow>
     path \<noteq> [] \<and> (last path = Fallback \<or>
        (last path = Generate \<and> evaluate_response env final = Inr ''useful''))"
proof (induction limit arbitrary: n state path)
  case 0
  then show ?case by simp
next
  case (Suc limit)
  from Suc.prems obtain state' n' path' where
    rn: "run_node env n state = Inr state'" and
    nn: "next_node env n state' = Inr n'" and
    rf: "run_from limit env n' state' = (path', Inr final)" and
    p: "path = n # path'"
    by (auto split: sum.splits prod.splits)
  show ?case
  proof (cases "n' = END")
    case True
    with rf have "path' = []" "final = state'"
      by (cases limit; simp)+
    with p nn True Suc.prems(2) next_node_END[of env n state'] show ?thesis by auto
  next
    case False
    from Suc.IH[OF rf False] p show ?thesis by auto
  qed
qed

lemma useful_grades:
  "evaluate_response env state = Inr ''useful'' \<Longrightarrow>
     \<exists>ds g. documents state = Some ds \<and> generation state = Some g \<and>
       hallucination_chain env ds g = Inr ''yes'' \<and>
       answer_grader_chain env (question state) g = Inr ''yes''"
  by (auto simp: evaluate_response_def bind_Inr get_key_def split: option.splits if_splits)

lemma empty_grading_web_search:
  "documents state = Some (DocList []) \<Longrightarrow> next_node env GradeDocuments state = Inr WebSearch"
  by (simp add: decide_to_generate_def get_key_def bind_def follow_def grade_documents_map_def)

lemma run_example:
  "run_pipeline 25 crag_example ''q'' =
     ([START, Retrieve, GradeDocuments, WebSearch, Generate],
      Inr \<lparr>question = ''q'', generation = Some ''answer'',
           documents = Some (OneDoc (''w1'' @ [CHR 0x0A] @ ''w2''))\<rparr>)"
  by code_simp

lemma run_chat:
  "run_pipeline 25 crag_chat ''hi'' =
     ([START, Fallback], Inr \<lparr>question = ''hi'', generation = Some ''hello'', documents = None\<rparr>)"
  by code_simp

text \<open>
  Claim C10.  A run of the compiled workflow that reaches \<open>END\<close>, from whatever node it
  starts, reaches it from \<open>fallback\<close>, or from \<open>generate\<close> with \<open>evaluate_response\<close>
  returning \<open>'useful'\<close> on the final state, which means that the generation was graded
  \<open>'yes'\<close> both for being grounded in the documents and for answering the question.  Both
  exits are taken by some run.  When \<open>grade_documents\<close> leaves an empty list of documents,
  the node taken next is \<open>web_search\<close>.
\<close>

theorem crag_exits:
  "(n \<noteq> END \<and> run_from limit env n state = (path, Inr final) \<longrightarrow>
      path \<noteq> [] \<and> (last path = Fallback \<or>
        (last path = Generate \<and> evaluate_response env final = Inr ''useful'')))
   \<and> (evaluate_response env final = Inr ''useful'' \<longrightarrow>
        (\<exists>ds g. documents final = Some ds \<and> generation final = Some g \<and>
           hallucination_chain env ds g = Inr ''yes'' \<and>
           answer_grader_chain env (question final) g = Inr ''yes''))
   \<and> (grade_documents env graded = Inr graded' \<and> documents graded' = Some (DocList []) \<longrightarrow>
        next_node env GradeDocuments graded' = Inr WebSearch)
   \<and> (\<exists>env' q p s. run_pipeline 25 env' q = (p, Inr s) \<and> last p = Fallback)
   \<and> (\<exists>env' q p s. run_pipeline 25 env' q = (p, Inr s) \<and> last p = Generate)"
proof (intro conjI impI)
  show "\<exists>env' q p s. run_pipeline 25 env' q = (p, Inr s) \<and> last p = Fallback"
    using run_chat by fastforce
  show "\<exists>env' q p s. run_pipeline 25 env' q = (p, Inr s) \<and> last p = Generate"
    using run_example by fastforce
qed (auto dest: run_from_exit useful_grades empty_grading_web_search)

theorem crag_exits_witness:
  "last [START, Retrieve, GradeDocuments, WebSearch, Generate] = Generate
   \<and> evaluate_response crag_example
        \<lparr>question = ''q'', generation = Some ''answer'',
         documents = Some (OneDoc (''w1'' @ [CHR 0x0A] @ ''w2''))\<rparr> = Inr ''useful''
   \<and> hallucination_chain crag_example (OneDoc (''w1'' @ [CHR 0x0A] @ ''w2'')) ''answer'' = Inr ''yes''
   \<and> grade_documents crag_example
        \<lparr>question = ''q'', generation = None, documents = Some (DocList [''d1'', ''d2''])\<rparr>
       = Inr \<lparr>question = ''q'', generation = None, documents = Some (DocList [])\<rparr>
   \<and> next_node crag_example GradeDocuments
        \<lparr>question = ''q'', generation = None, documents = Some (DocList [])\<rparr> = Inr WebSearch"
proof -
  let ?s0 = "\<lparr>question = ''q'', generation = None, documents = None\<rparr>"
  let ?s1 = "\<lparr>question = ''q'', generation = None, documents = Some (DocList [''d1'', ''d2''])\<rparr>"
  let ?s2 = "\<lparr>question = ''q'', generation = None, documents = Some (DocList [])\<rparr>"
  let ?fin = "\<lparr>question = ''q'', generation = Some ''answer'',
           documents = Some (OneDoc (''w1'' @ [CHR 0x0A] @ ''w2''))\<rparr>"
  have run: "run_from 25 crag_example START ?s0 =
     ([START, Retrieve, GradeDocuments, WebSearch, Generate], Inr ?fin)"
    using run_example by (simp add: run_pipeline_def)
  have g: "grade_documents crag_example ?s1 = Inr ?s2"
    by code_simp
  have h: "hallucination_chain crag_example (OneDoc (''w1'' @ [CHR 0x0A] @ ''w2'')) ''answer'' = Inr ''yes''"
    by code_simp
  show ?thesis
    using crag_exits [where n = START and limit = 25 and env = crag_example and state = ?s0
        and path = "[START, Retrieve, GradeDocuments, WebSearch, Generate]" and final = ?fin
        and graded = ?s1 and graded' = ?s2] run g h
    by simp
qed



text \<open>
  A run in which every retrieved document is graded irrelevant goes on to \<open>web_search\<close>
  instead of \<open>generate\<close>, and a generation graded as not grounded sends the run back to
  \<open>generate\<close>: the workflow does detect an unsatisfactory step and re-routes the run.
\<close>

theorem crag_reroutes_counterexample:
  "fst (run_pipeline 25 crag_example ''q'') = [START, Retrieve, GradeDocuments, WebSearch, Generate]
   \<and> grade_documents crag_example
        \<lparr>question = ''q'', generation = None, documents = Some (DocList [''d1'', ''d2''])\<rparr>
       = Inr \<lparr>question = ''q'', generation = None, documents = Some (DocList [])\<rparr>
   \<and> next_node (crag_with (Inr []) ''no'' ''yes'') Generate
        \<lparr>question = ''q'', generation = Some ''answer'', documents = Some (OneDoc ''w'')\<rparr>
       = Inr Generate"
  by code_simp

lemma grade_loop_Inr:
  "(\<forall>d\<in>set ds. \<exists>g. grading_chain env d q = Inr g) \<Longrightarrow>
     grade_loop env q acc ds = Inr (acc @ filter (\<lambda>d. grading_chain env d q = Inr ''yes'') ds)"
proof (induction ds arbitrary: acc)
  case Nil
  then show ?case by simp
next
  case (Cons d ds)
  then obtain g where g: "grading_chain env d q = Inr g" by auto
  have "\<forall>d\<in>set ds. \<exists>g. grading_chain env d q = Inr g" using Cons.prems by simp
  note IH = Cons.IH[OF this]
  show ?case
    using g IH[of "acc @ [d]"] IH[of acc] by (simp add: bind_def)
qed

lemma grade_documents_keeps_relevant:
  assumes "documents s = Some (DocList ds)"
    and "\<forall>d\<in>set ds. \<exists>g. grading_chain env d (question s) = Inr g"
  shows "grade_documents env s =
     Inr (s\<lparr>documents := Some (DocList (filter (\<lambda>d. grading_chain env d (question s) = Inr ''yes'') ds))\<rparr>)"
  using assms(1) grade_loop_Inr[OF assms(2), of "[]"]
  by (simp add: grade_documents_def bind_def get_key_def)

lemma after_grading:
  "documents s' = Some (DocList kept) \<Longrightarrow>
     next_node env GradeDocuments s' = Inr (if kept = [] then WebSearch else Generate)"
  by (simp add: decide_to_generate_def get_key_def bind_def follow_def grade_documents_map_def)

lemma grading_reroutes:
  assumes "documents s = Some (DocList ds)"
    and "\<forall>d\<in>set ds. \<exists>g. grading_chain env d (question s) = Inr g"
  shows "\<exists>s'. grade_documents env s = Inr s'
       \<and> documents s' = Some (DocList (filter (\<lambda>d. grading_chain env d (question s) = Inr ''yes'') ds))
       \<and> next_node env GradeDocuments s' =
           Inr (if \<exists>d\<in>set ds. grading_chain env d (question s) = Inr ''yes'' then Generate else WebSearch)"
proof -
  let ?kept = "filter (\<lambda>d. grading_chain env d (question s) = Inr ''yes'') ds"
  let ?s' = "s\<lparr>documents := Some (DocList ?kept)\<rparr>"
  have a: "grade_documents env s = Inr ?s'"
    using assms by (rule grade_documents_keeps_relevant)
  have b: "documents ?s' = Some (DocList ?kept)" by simp
  have c: "(?kept = []) = (\<not> (\<exists>d\<in>set ds. grading_chain env d (question s) = Inr ''yes''))"
    by (auto simp: filter_empty_conv)
  from after_grading[OF b, of env] c
  have "next_node env GradeDocuments ?s' =
           Inr (if \<exists>d\<in>set ds. grading_chain env d (question s) = Inr ''yes'' then Generate else WebSearch)"
    by auto
  with a b show ?thesis by blast
qed

lemma ungrounded_regenerates:
  "documents g = Some dv \<Longrightarrow> generation g = Some gen \<Longrightarrow> hallucination_chain env dv gen = Inr h \<Longrightarrow>
   h \<noteq> ''yes'' \<Longrightarrow> next_node env Generate g = Inr Generate"
  by (simp add: evaluate_response_def get_key_def bind_def follow_def generate_map_def)

lemma grounded_answer_checked:
  "documents g = Some dv \<Longrightarrow> generation g = Some gen \<Longrightarrow>
   hallucination_chain env dv gen = Inr ''yes'' \<Longrightarrow> answer_grader_chain env (question g) gen = Inr a \<Longrightarrow>
     next_node env Generate g = Inr (if a = ''yes'' then END else WebSearch)"
  by (simp add: evaluate_response_def get_key_def bind_def follow_def generate_map_def)

lemma run_from_Suc:
  "n \<noteq> END \<Longrightarrow> run_node env n state = Inr state' \<Longrightarrow> next_node env n state' = Inr n' \<Longrightarrow>
     fst (run_from (Suc limit) env n state) = n # fst (run_from limit env n' state')"
  by (simp split: prod.splits)

lemma run_from_first:
  "n \<noteq> END \<Longrightarrow> \<exists>rest. fst (run_from (Suc limit) env n state) = n # rest"
  by (auto split: sum.splits prod.splits)

lemma irrelevant_retrieval_run:
  assumes r: "query_routing_chain env q = Inr ''vectorstore''"
    and d: "retriever env q = Inr ds"
    and g: "\<forall>d\<in>set ds. \<exists>g. grading_chain env d q = Inr g \<and> g \<noteq> ''yes''"
  shows "take 4 (fst (run_pipeline (4 + limit) env q)) = [START, Retrieve, GradeDocuments, WebSearch]"
proof -
  let ?s0 = "\<lparr>question = q, generation = None, documents = None\<rparr>"
  let ?s1 = "?s0\<lparr>documents := Some (DocList ds)\<rparr>"
  have q1: "question ?s1 = q" by simp
  have d1: "documents ?s1 = Some (DocList ds)" by simp
  have gs: "\<forall>d\<in>set ds. \<exists>g. grading_chain env d (question ?s1) = Inr g" using g by auto
  have no: "\<not> (\<exists>d\<in>set ds. grading_chain env d (question ?s1) = Inr ''yes'')" using g by auto
  from grading_reroutes[OF d1 gs] no obtain s2 where
    g2: "grade_documents env ?s1 = Inr s2" and n2: "next_node env GradeDocuments s2 = Inr WebSearch"
    by auto
  have a: "next_node env START ?s0 = Inr Retrieve"
    using r by (simp add: route_question_def bind_def follow_def entry_point_map_def get_key_def)
  have b: "run_node env Retrieve ?s0 = Inr ?s1"
    using d by (simp add: retrieve_def bind_def)
  have e: "4 + limit = Suc (Suc (Suc (Suc limit)))" by simp
  have "fst (run_from (Suc (Suc (Suc (Suc limit)))) env START ?s0)
      = START # Retrieve # GradeDocuments # fst (run_from (Suc limit) env WebSearch s2)"
    using a b g2 n2
    by (simp add: run_from_Suc[where n = START and state' = ?s0 and n' = Retrieve]
        run_from_Suc[where n = Retrieve and state' = ?s1 and n' = GradeDocuments]
        run_from_Suc[where n = GradeDocuments and state' = s2 and n' = WebSearch]
        del: run_from.simps)
  moreover obtain rest where "fst (run_from (Suc limit) env WebSearch s2) = WebSearch # rest"
    using run_from_first[of WebSearch limit env s2] by auto
  ultimately show ?thesis unfolding run_pipeline_def e by (simp del: run_from.simps)
qed

text \<open>
  Claim C6, amended.  The notebooks catch no exception: an error raised by a node ends the
  run with that error.  But the corrective workflow detects an unsatisfactory step and
  re-routes the run.  Grading keeps exactly the retrieved documents that the grader marks
  \<open>yes\<close>, and the run goes on to \<open>generate\<close> when one is kept and to \<open>web_search\<close> when none
  is; so a run that is routed to the vector store and retrieves only documents graded
  other than \<open>yes\<close> goes from \<open>START\<close> through \<open>retrieve\<close> and \<open>grade_documents\<close> to
  \<open>web_search\<close>.  After \<open>generate\<close>, a generation that the hallucination grader does not
  mark \<open>yes\<close> sends the run to \<open>generate\<close> again; one that it marks \<open>yes\<close> ends the run when
  the answer grader marks it \<open>yes\<close> too, and sends the run to \<open>web_search\<close> otherwise.
\<close>

theorem crag_reroutes:
  "(n \<noteq> END \<and> run_node env n state = Inl e \<longrightarrow>
      run_from (Suc limit) env n state = ([n], Inl e))
   \<and> (documents s = Some (DocList ds)
        \<and> (\<forall>d\<in>set ds. \<exists>g. grading_chain env1 d (question s) = Inr g) \<longrightarrow>
      (\<exists>s'. grade_documents env1 s = Inr s'
         \<and> documents s' =
              Some (DocList (filter (\<lambda>d. grading_chain env1 d (question s) = Inr ''yes'') ds))
         \<and> next_node env1 GradeDocuments s' =
              Inr (if \<exists>d\<in>set ds. grading_chain env1 d (question s) = Inr ''yes''
                   then Generate else WebSearch)))
   \<and> (query_routing_chain env4 q = Inr ''vectorstore'' \<and> retriever env4 q = Inr ds4
        \<and> (\<forall>d\<in>set ds4. \<exists>g. grading_chain env4 d q = Inr g \<and> g \<noteq> ''yes'') \<longrightarrow>
      take 4 (fst (run_pipeline (4 + limit4) env4 q)) = [START, Retrieve, GradeDocuments, WebSearch])
   \<and> (documents g2 = Some dv2 \<and> generation g2 = Some gen2
        \<and> hallucination_chain env2 dv2 gen2 = Inr h \<and> h \<noteq> ''yes'' \<longrightarrow>
      next_node env2 Generate g2 = Inr Generate)
   \<and> (documents g3 = Some dv3 \<and> generation g3 = Some gen3
        \<and> hallucination_chain env3 dv3 gen3 = Inr ''yes''
        \<and> answer_grader_chain env3 (question g3) gen3 = Inr a \<longrightarrow>
      next_node env3 Generate g3 = Inr (if a = ''yes'' then END else WebSearch))"
  using grading_reroutes[of s ds env1] irrelevant_retrieval_run[of env4 q ds4 limit4]
    ungrounded_regenerates[of g2 dv2 gen2 env2 h] grounded_answer_checked[of g3 dv3 gen3 env3 a]
  by (intro conjI impI) (simp, blast+)

theorem crag_reroutes_witness:
  "run_from 25 (crag_with (Inl (ExternalError ''down'')) ''yes'' ''yes'') Retrieve
      \<lparr>question = ''q'', generation = None, documents = None\<rparr>
     = ([Retrieve], Inl (ExternalError ''down''))
   \<and> (\<exists>s'. grade_documents crag_relevant
            \<lparr>question = ''q'', generation = None, documents = Some (DocList [''d1'', ''d2''])\<rparr> = Inr s'
         \<and> documents s' = Some (DocList [''d1''])
         \<and> next_node crag_relevant GradeDocuments s' = Inr Generate)
   \<and> take 4 (fst (run_pipeline 25 crag_example ''q'')) = [START, Retrieve, GradeDocuments, WebSearch]
   \<and> next_node (crag_with (Inr []) ''no'' ''yes'') Generate
        \<lparr>question = ''q'', generation = Some ''answer'', documents = Some (OneDoc ''w'')\<rparr>
       = Inr Generate
   \<and> next_node (crag_with (Inr []) ''yes'' ''no'') Generate
        \<lparr>question = ''q'', generation = Some ''answer'', documents = Some (OneDoc ''w'')\<rparr>
       = Inr WebSearch"
proof -
  let ?s0 = "\<lparr>question = ''q'', generation = None, documents = None\<rparr>"
  let ?s1 = "\<lparr>question = ''q'', generation = None, documents = Some (DocList [''d1'', ''d2''])\<rparr>"
  let ?g = "\<lparr>question = ''q'', generation = Some ''answer'', documents = Some (OneDoc ''w'')\<rparr>"
  let ?down = "crag_with (Inl (ExternalError ''down'')) ''yes'' ''yes''"
  let ?ung = "crag_with (Inr []) ''no'' ''yes''"
  let ?unh = "crag_with (Inr []) ''yes'' ''no''"
  have a: "Retrieve \<noteq> END \<and> run_node ?down Retrieve ?s0 = Inl (ExternalError ''down'')"
    by code_simp
  have b: "documents ?s1 = Some (DocList [''d1'', ''d2''])
      \<and> (\<forall>d\<in>set [''d1'', ''d2'']. \<exists>g. grading_chain crag_relevant d (question ?s1) = Inr g)"
    by (simp add: crag_relevant_def)
  have b': "filter (\<lambda>d. grading_chain crag_relevant d (question ?s1) = Inr ''yes'') [''d1'', ''d2''] = [''d1'']"
    by (simp add: crag_relevant_def)
  have b'': "\<exists>d\<in>set [''d1'', ''d2'']. grading_chain crag_relevant d (question ?s1) = Inr ''yes''"
    by (simp add: crag_relevant_def)
  have c: "query_routing_chain crag_example ''q'' = Inr ''vectorstore''
      \<and> retriever crag_example ''q'' = Inr [''d1'', ''d2'']
      \<and> (\<forall>d\<in>set [''d1'', ''d2'']. \<exists>g. grading_chain crag_example d ''q'' = Inr g \<and> g \<noteq> ''yes'')"
    by (simp add: crag_example_def crag_with_def)
  have d: "documents ?g = Some (OneDoc ''w'') \<and> generation ?g = Some ''answer''
      \<and> hallucination_chain ?ung (OneDoc ''w'') ''answer'' = Inr ''no'' \<and> ''no'' \<noteq> ''yes''"
    by (simp add: crag_with_def)
  have e: "documents ?g = Some (OneDoc ''w'') \<and> generation ?g = Some ''answer''
      \<and> hallucination_chain ?unh (OneDoc ''w'') ''answer'' = Inr ''yes''
      \<and> answer_grader_chain ?unh (question ?g) ''answer'' = Inr ''no''"
    by (simp add: crag_with_def)
  note T = crag_reroutes[where n = Retrieve and env = ?down and state = ?s0
        and e = "ExternalError ''down''" and limit = 24
        and s = ?s1 and ds = "[''d1'', ''d2'']" and ?env1.0 = crag_relevant
        and ?env4.0 = crag_example and q = "''q''" and ?ds4.0 = "[''d1'', ''d2'']" and ?limit4.0 = 21
        and ?g2.0 = ?g and ?dv2.0 = "OneDoc ''w''" and ?gen2.0 = "''answer''" and ?env2.0 = ?ung
        and h = "''no''"
        and ?g3.0 = ?g and ?dv3.0 = "OneDoc ''w''" and ?gen3.0 = "''answer''" and ?env3.0 = ?unh
        and a = "''no''"]
  have A: "run_from 25 ?down Retrieve ?s0 = ([Retrieve], Inl (ExternalError ''down''))"
    using T a by simp
  have B: "\<exists>s'. grade_documents crag_relevant ?s1 = Inr s'
         \<and> documents s' = Some (DocList [''d1''])
         \<and> next_node crag_relevant GradeDocuments s' = Inr Generate"
    using T[THEN conjunct2, THEN conjunct1] b b' b'' by auto
  have C: "take 4 (fst (run_pipeline 25 crag_example ''q'')) = [START, Retrieve, GradeDocuments, WebSearch]"
    using T[THEN conjunct2, THEN conjunct2, THEN conjunct1] c by simp
  have D: "next_node ?ung Generate ?g = Inr Generate"
    using T[THEN conjunct2, THEN conjunct2, THEN conjunct2, THEN conjunct1] d by blast
  have E: "next_node ?unh Generate ?g = Inr WebSearch"
    using T[THEN conjunct2, THEN conjunct2, THEN conjunct2, THEN conjunct2] e by simp
  show ?thesis using A B C D E by blast
qed

section \<open>Properties of reciprocal rank fusion\<close>

lemma score_of_update:
  "score_of ops (AList.update a v fused) s = (if s = a then v else score_of ops fused s)"
  by (simp add: score_of_def update_conv')

lemma occurrences_in_Cons:
  "occurrences_in dumps rank (doc # docs) s
     = (if dumps doc = s then [rank] else []) @ occurrences_in dumps (Suc rank) docs s"
  by (simp add: occurrences_in_def)

lemma add_ranks_append:
  "add_ranks ops k a (xs @ ys) = add_ranks ops k (add_ranks ops k a xs) ys"
  by (simp add: add_ranks_def)

lemma rrf_docs_ok:
  assumes "\<forall>i<length docs. int (rank + i) + k \<noteq> 0"
  shows "\<exists>fused'. rrf_docs ops dumps k rank docs fused = Inr fused'
           \<and> fst ` set fused' = fst ` set fused \<union> dumps ` set docs
           \<and> (distinct (map fst fused) \<longrightarrow> distinct (map fst fused'))
           \<and> (\<forall>s. score_of ops fused' s
                   = add_ranks ops k (score_of ops fused s) (occurrences_in dumps rank docs s))"
  using assms
proof (induction docs arbitrary: rank fused)
  case Nil
  then show ?case by (simp add: occurrences_in_def add_ranks_def)
next
  case (Cons doc docs)
  let ?a = "dumps doc"
  let ?f1 = "if map_of fused ?a = None then AList.update ?a (f_zero ops) fused else fused"
  obtain p where p: "map_of ?f1 ?a = Some p" and pv: "p = score_of ops fused ?a"
    by (cases "map_of fused ?a") (auto simp: update_conv' score_of_def)
  let ?f2 = "AList.update ?a (f_add ops p (f_recip ops (int rank + k))) ?f1"
  have nz: "int rank + k \<noteq> 0" using Cons.prems by force
  have step: "rrf_docs ops dumps k rank (doc # docs) fused = rrf_docs ops dumps k (Suc rank) docs ?f2"
    using p nz by (simp add: Let_def bind_def get_key_def)
  have "\<forall>i<length docs. int (Suc rank + i) + k \<noteq> 0"
    using Cons.prems by force
  from Cons.IH[OF this, of ?f2] obtain fused' where
    r: "rrf_docs ops dumps k (Suc rank) docs ?f2 = Inr fused'" and
    d: "fst ` set fused' = fst ` set ?f2 \<union> dumps ` set docs" and
    di: "distinct (map fst ?f2) \<longrightarrow> distinct (map fst fused')" and
    sc: "\<forall>s. score_of ops fused' s
           = add_ranks ops k (score_of ops ?f2 s) (occurrences_in dumps (Suc rank) docs s)"
    by blast
  have d2: "fst ` set ?f2 = insert ?a (fst ` set fused)"
    by (auto simp: dom_update)
  have di2: "distinct (map fst fused) \<Longrightarrow> distinct (map fst ?f2)"
    by (simp add: distinct_update)
  have sc2: "score_of ops ?f2 s
      = add_ranks ops k (score_of ops fused s) (if ?a = s then [rank] else [])" for s
    using pv by (auto simp: score_of_update add_ranks_def)
  have sc3: "score_of ops fused' s
      = add_ranks ops k (score_of ops fused s) (occurrences_in dumps rank (doc # docs) s)" for s
    unfolding occurrences_in_Cons add_ranks_append using sc sc2 by simp
  show ?case
    unfolding step using r d di d2 di2 sc3
    by (intro exI[of _ fused']) auto
qed

lemma occurrences_Cons:
  "occurrences dumps (docs # results) s
     = occurrences_in dumps 0 docs s @ occurrences dumps results s"
  by (simp add: occurrences_def)

lemma rrf_lists_ok:
  assumes "\<forall>docs\<in>set results. \<forall>rank<length docs. int rank + k \<noteq> 0"
  shows "\<exists>fused'. rrf_lists ops dumps k results fused = Inr fused'
           \<and> fst ` set fused' = fst ` set fused \<union> dumps ` (\<Union>docs\<in>set results. set docs)
           \<and> (distinct (map fst fused) \<longrightarrow> distinct (map fst fused'))
           \<and> (\<forall>s. score_of ops fused' s
                   = add_ranks ops k (score_of ops fused s) (occurrences dumps results s))"
  using assms
proof (induction results arbitrary: fused)
  case Nil
  then show ?case by (simp add: occurrences_def add_ranks_def)
next
  case (Cons docs results)
  have "\<forall>i<length docs. int (0 + i) + k \<noteq> 0"
    using Cons.prems by simp
  from rrf_docs_ok[OF this, of ops dumps fused] obtain f1 where
    a: "rrf_docs ops dumps k 0 docs fused = Inr f1" and
    b: "fst ` set f1 = fst ` set fused \<union> dumps ` set docs" and
    c: "distinct (map fst fused) \<longrightarrow> distinct (map fst f1)" and
    d: "\<forall>s. score_of ops f1 s
          = add_ranks ops k (score_of ops fused s) (occurrences_in dumps 0 docs s)"
    by blast
  have "\<forall>docs\<in>set results. \<forall>rank<length docs. int rank + k \<noteq> 0"
    using Cons.prems by simp
  from Cons.IH[OF this, of f1] obtain f2 where
    a2: "rrf_lists ops dumps k results f1 = Inr f2" and
    b2: "fst ` set f2 = fst ` set f1 \<union> dumps ` (\<Union>docs\<in>set results. set docs)" and
    c2: "distinct (map fst f1) \<longrightarrow> distinct (map fst f2)" and
    d2: "\<forall>s. score_of ops f2 s
           = add_ranks ops k (score_of ops f1 s) (occurrences dumps results s)"
    by blast
  have e: "rrf_lists ops dumps k (docs # results) fused = Inr f2"
    using a a2 by (simp add: bind_def)
  have f: "score_of ops f2 s
      = add_ranks ops k (score_of ops fused s) (occurrences dumps (docs # results) s)" for s
    unfolding occurrences_Cons add_ranks_append using d d2 by simp
  show ?case
    using e b b2 c c2 f by (intro exI[of _ f2]) auto
qed

lemma score_of_member:
  "distinct (map fst fused) \<Longrightarrow> (s, v) \<in> set fused \<Longrightarrow> score_of ops fused s = v"
  by (simp add: score_of_def)

lemma set_insert_desc: "set (insert_desc lt x ys) = insert x (set ys)"
  by (induction ys) auto

lemma set_sorted_reverse: "set (sorted_reverse lt xs) = set xs"
  unfolding sorted_reverse_def by (induction xs) (auto simp: set_insert_desc)

lemma distinct_insert_desc:
  "distinct (map fst (insert_desc lt x ys)) \<longleftrightarrow> fst x \<notin> fst ` set ys \<and> distinct (map fst ys)"
  by (induction ys) (auto simp: set_insert_desc)

lemma distinct_sorted_reverse:
  "distinct (map fst (sorted_reverse lt xs)) \<longleftrightarrow> distinct (map fst xs)"
  unfolding sorted_reverse_def
  by (induction xs) (auto simp: distinct_insert_desc set_sorted_reverse[unfolded sorted_reverse_def])

lemma sorted_insert_desc:
  assumes "float_order ops"
    and "sorted_wrt (\<lambda>a b. \<not> f_less ops (snd a) (snd b)) ys"
  shows "sorted_wrt (\<lambda>a b. \<not> f_less ops (snd a) (snd b)) (insert_desc (f_less ops) x ys)"
  using assms(2)
proof (induction ys)
  case Nil
  then show ?case by simp
next
  case (Cons y ys)
  have asym: "\<And>a b. f_less ops a b \<Longrightarrow> \<not> f_less ops b a"
    and trans: "\<And>a b c. \<not> f_less ops a b \<Longrightarrow> \<not> f_less ops b c \<Longrightarrow> \<not> f_less ops a c"
    using assms(1) unfolding float_order_def by blast+
  show ?case
  proof (cases "f_less ops (snd x) (snd y)")
    case True
    then show ?thesis
      using Cons asym by (auto simp: set_insert_desc)
  next
    case False
    then show ?thesis
      using Cons.prems trans by auto
  qed
qed

lemma sorted_sorted_reverse:
  assumes "float_order ops"
  shows "sorted_wrt (\<lambda>a b. \<not> f_less ops (snd a) (snd b)) (sorted_reverse (f_less ops) xs)"
  unfolding sorted_reverse_def
  by (induction xs) (simp_all add: sorted_insert_desc[OF assms])

lemma rrf_ok:
  assumes fo: "float_order ops"
    and nz: "\<forall>docs\<in>set results. \<forall>rank<length docs. int rank + k \<noteq> 0"
  shows "\<exists>out. rrf ops loads dumps results k = Inr out \<and> fused_ranking ops loads dumps k results out"
proof -
  from rrf_lists_ok[OF nz, of ops dumps "[]"] obtain fused where
    a: "rrf_lists ops dumps k results [] = Inr fused" and
    b: "fst ` set fused = dumps ` (\<Union>docs\<in>set results. set docs)" and
    c: "distinct (map fst fused)" and
    d: "\<forall>s. score_of ops fused s = add_ranks ops k (f_zero ops) (occurrences dumps results s)"
    by (auto simp: score_of_def)
  let ?srt = "sorted_reverse (f_less ops) fused"
  let ?out = "map (\<lambda>(doc, score). (loads doc, score)) ?srt"
  let ?keys = "map fst ?srt"
  have r: "rrf ops loads dumps results k = Inr ?out"
    using a by (simp add: rrf_def bind_def)
  have dk: "distinct ?keys"
    using c by (simp add: distinct_sorted_reverse)
  have sk: "set ?keys = dumps ` (\<Union>docs\<in>set results. set docs)"
    using b by (simp add: set_sorted_reverse)
  have val: "snd x = add_ranks ops k (f_zero ops) (occurrences dumps results (fst x))"
    if "x \<in> set ?srt" for x
  proof -
    from that have "(fst x, snd x) \<in> set fused" by (simp add: set_sorted_reverse)
    from score_of_member[OF c this, of ops] d show ?thesis by simp
  qed
  have o: "?out = map (\<lambda>s. (loads s, add_ranks ops k (f_zero ops) (occurrences dumps results s))) ?keys"
    using val by (auto simp: case_prod_beta)
  have so: "sorted_wrt (\<lambda>a b. \<not> f_less ops (snd a) (snd b)) ?out"
    using sorted_sorted_reverse[OF fo, of fused]
    by (simp add: sorted_wrt_map case_prod_beta)
  show ?thesis
    unfolding fused_ranking_def using r dk sk o so by blast
qed

lemma add_ranks_exact:
  "add_ranks exact_ops k a ranks = a + (\<Sum>rank\<leftarrow>ranks. 1 / of_int (int rank + k))"
  unfolding add_ranks_def exact_ops_def
  by (induction ranks arbitrary: a) (simp_all add: algebra_simps)

lemma rank_sum_occurrences:
  "rank_sum dumps k r docs s = (\<Sum>rank\<leftarrow>occurrences_in dumps r docs s. 1 / of_int (int rank + k))"
  unfolding rank_sum_def occurrences_in_def
  by (induction docs arbitrary: r) simp_all

lemma exact_sum:
  "add_ranks exact_ops k 0 (occurrences dumps results s) = reciprocal_rank_sum dumps k results s"
  unfolding add_ranks_exact reciprocal_rank_sum_def occurrences_def
  by (induction results) (simp_all add: rank_sum_occurrences)

lemma float_order_binary64: "float_order binary64_ops"
  by (auto simp: float_order_def binary64_ops_def)

lemma float_order_exact: "float_order exact_ops"
  by (auto simp: float_order_def exact_ops_def)

lemma four_rankings_rrf:
  "rrf binary64_ops id id four_rankings 60
     = Inr [(''z'', 4803839602528529 / 72057594037927936),
            (''B'', 4668534659428931 / 72057594037927936),
            (''A'', 2334267329714465 / 36028797018963968),
            (''y'', 1162219258676257 / 36028797018963968)]"
  by code_simp

lemma four_rankings_exact:
  "reciprocal_rank_sum id 60 four_rankings ''A'' = 15437 / 238266
   \<and> reciprocal_rank_sum id 60 four_rankings ''B'' = 15437 / 238266"
  by code_simp

text \<open>
  With \<open>k = 0\<close> the document at rank 0 gives \<open>1 / 0\<close>: the call raises and returns no
  ranking.
\<close>

theorem rrf_division_by_zero: "rrf binary64_ops id id [[''a'']] 0 = Inl ZeroDivisionError"
  by code_simp

text \<open>
  Claim C8, amended.  For every list of ranked lists and every \<open>k\<close> for which \<open>rank + k\<close>
  is not 0 at any position of any list, \<open>rrf\<close> returns one (document, score) pair per
  distinct serialised document; the score is the floating-point sum of \<open>1 / (rank + k)\<close>
  over the occurrences of the document, the terms being added to 0 one by one in the
  order of the occurrences (list by list, position by position); and no pair stands
  before a pair of greater score.  This holds for every float arithmetic whose \<open><\<close> is
  asymmetric and whose "not smaller" is transitive.  The default \<open>k = 60\<close> is such a \<open>k\<close>
  for every input.  In exact arithmetic the score is the sum of \<open>1 / (rank + k)\<close> over the
  occurrences; in rounding arithmetic two documents of the same exact sum may get
  different scores.
\<close>

theorem rrf_fused_ranking:
  "(float_order ops \<and> (\<forall>docs\<in>set results. \<forall>rank<length docs. int rank + k \<noteq> 0) \<longrightarrow>
      (\<exists>out. rrf ops loads dumps results k = Inr out \<and> fused_ranking ops loads dumps k results out))
   \<and> (float_order ops \<longrightarrow>
      (\<exists>out. rrf_default ops loads dumps results = Inr out
         \<and> fused_ranking ops loads dumps 60 results out))
   \<and> add_ranks exact_ops k 0 (occurrences dumps results s) = reciprocal_rank_sum dumps k results s"
proof (intro conjI impI)
  assume fo: "float_order ops"
  have "\<forall>docs\<in>set results. \<forall>rank<length docs. int rank + 60 \<noteq> 0"
    by auto
  from rrf_ok[OF fo this]
  show "\<exists>out. rrf_default ops loads dumps results = Inr out
          \<and> fused_ranking ops loads dumps 60 results out"
    by (simp add: rrf_default_def)
next
  assume "float_order ops \<and> (\<forall>docs\<in>set results. \<forall>rank<length docs. int rank + k \<noteq> 0)"
  then show "\<exists>out. rrf ops loads dumps results k = Inr out \<and> fused_ranking ops loads dumps k results out"
    using rrf_ok by blast
next
  show "add_ranks exact_ops k 0 (occurrences dumps results s) = reciprocal_rank_sum dumps k results s"
    by (rule exact_sum)
qed


theorem rrf_fused_ranking_witness:
  "rrf binary64_ops id id four_rankings 60
     = Inr [(''z'', 4803839602528529 / 72057594037927936),
            (''B'', 4668534659428931 / 72057594037927936),
            (''A'', 2334267329714465 / 36028797018963968),
            (''y'', 1162219258676257 / 36028797018963968)]
   \<and> fused_ranking binary64_ops id id 60 four_rankings
        [(''z'', 4803839602528529 / 72057594037927936),
         (''B'', 4668534659428931 / 72057594037927936),
         (''A'', 2334267329714465 / 36028797018963968),
         (''y'', 1162219258676257 / 36028797018963968)]
   \<and> rrf_default binary64_ops id id four_rankings
     = Inr [(''z'', 4803839602528529 / 72057594037927936),
            (''B'', 4668534659428931 / 72057594037927936),
            (''A'', 2334267329714465 / 36028797018963968),
            (''y'', 1162219258676257 / 36028797018963968)]
   \<and> add_ranks exact_ops 60 0 (occurrences id four_rankings ''A'') = 15437 / 238266
   \<and> add_ranks exact_ops 60 0 (occurrences id four_rankings ''B'') = 15437 / 238266"
proof -
  let ?out = "[(''z'', 4803839602528529 / 72057594037927936 :: rat),
               (''B'', 4668534659428931 / 72057594037927936),
               (''A'', 2334267329714465 / 36028797018963968),
               (''y'', 1162219258676257 / 36028797018963968)]"
  have h: "float_order binary64_ops
      \<and> (\<forall>docs\<in>set four_rankings. \<forall>rank<length docs. int rank + 60 \<noteq> 0)"
    using float_order_binary64 by auto
  note A = rrf_fused_ranking[of binary64_ops four_rankings 60 id id "''A''"]
  note B = rrf_fused_ranking[of binary64_ops four_rankings 60 id id "''B''"]
  have v: "rrf binary64_ops id id four_rankings 60 = Inr ?out"
    by (rule four_rankings_rrf)
  have f: "fused_ranking binary64_ops id id 60 four_rankings ?out"
    using A[THEN conjunct1] h v by auto
  have d: "rrf_default binary64_ops id id four_rankings = Inr ?out"
    using v by (simp add: rrf_default_def)
  have a: "add_ranks exact_ops 60 0 (occurrences id four_rankings ''A'') = 15437 / 238266"
    using A[THEN conjunct2, THEN conjunct2] four_rankings_exact by simp
  have b: "add_ranks exact_ops 60 0 (occurrences id four_rankings ''B'') = 15437 / 238266"
    using B[THEN conjunct2, THEN conjunct2] four_rankings_exact by simp
  show ?thesis using v f d a b by blast
qed

section \<open>Properties of the vector stores: what reaches durable storage\<close>

lemma from_documents_disk:
  assumes "Chroma_from_documents embedding docs pd d = Inr (vs, d')"
  shows "\<exists>vecs. embedding docs = Inr vecs
           \<and> vs = \<lparr>vs_entries = chroma_open pd d @ zip docs vecs, vs_persist_directory = pd\<rparr>
           \<and> d' = chroma_flush vs d"
  using assms by (auto simp: Chroma_from_documents_def bind_Inr Let_def)

lemma flush_other: "Some dir \<noteq> vs_persist_directory vs \<Longrightarrow> chroma_flush vs d dir = d dir"
  by (auto simp: chroma_flush_def split: option.splits)

lemma flush_None: "vs_persist_directory vs = None \<Longrightarrow> chroma_flush vs d = d"
  by (simp add: chroma_flush_def)

lemma flush_dir: "vs_persist_directory vs = Some dir \<Longrightarrow> chroma_flush vs d dir = Some (vs_entries vs)"
  by (simp add: chroma_flush_def)

lemma generate_vectorstores_disk:
  assumes "generate_vectorstores loader split_documents embedding file dir d = Inr (vs, d')"
  shows "(\<forall>other. other \<noteq> dir \<longrightarrow> d' other = d other)
       \<and> (\<exists>documents vecs. loader file = Inr documents
             \<and> embedding (split_documents documents) = Inr vecs
             \<and> d' dir = Some (chroma_open (Some dir) d @ zip (split_documents documents) vecs))"
proof -
  from assms obtain documents vs0 d0 where
    l: "loader file = Inr documents" and
    c: "Chroma_from_documents embedding (split_documents documents) (Some dir) d = Inr (vs0, d0)" and
    r: "vs = vs0" "d' = persist vs0 d0"
    by (auto simp: generate_vectorstores_def bind_Inr Let_def)
  from from_documents_disk[OF c] obtain vecs where
    e: "embedding (split_documents documents) = Inr vecs" and
    v: "vs0 = \<lparr>vs_entries = chroma_open (Some dir) d @ zip (split_documents documents) vecs,
               vs_persist_directory = Some dir\<rparr>" and
    f: "d0 = chroma_flush vs0 d"
    by blast
  have pd: "vs_persist_directory vs0 = Some dir" using v by simp
  have "d' other = d other" if "other \<noteq> dir" for other
    using that r f pd by (simp add: persist_def flush_other)
  moreover have "d' dir = Some (chroma_open (Some dir) d @ zip (split_documents documents) vecs)"
    using r pd v by (simp add: persist_def flush_dir)
  ultimately show ?thesis using l e by blast
qed

lemma build_is_generate:
  "build_vectorstore loader split_documents embedding d
     = generate_vectorstores loader split_documents embedding ''data/'' ''data/vectorstore'' d"
  by (simp add: build_vectorstore_def generate_vectorstores_def)

lemma raptor_vectorstore_disk:
  "raptor_vectorstore embedding leaf_texts results d = Inr (vs, d') \<Longrightarrow> d' = d"
  by (auto simp: raptor_vectorstore_def Let_def dest!: from_documents_disk simp: flush_None)

lemma generate_example:
  "generate_vectorstores pdf_loader id (embed_documents raptor_example) file dir Map.empty
     = Inr (\<lparr>vs_entries = [(''QLoRA paper'', [11])], vs_persist_directory = Some dir\<rparr>,
            [dir \<mapsto> [(''QLoRA paper'', [11])]])"
  by (simp add: generate_vectorstores_def Chroma_from_documents_def pdf_loader_def raptor_example_def
      bind_def chroma_open_def chroma_flush_def persist_def)

lemma raptor_store_example:
  "raptor_vectorstore (embed_documents raptor_example) [''leaf''] [] Map.empty
     = Inr (\<lparr>vs_entries = [(''leaf'', [4])], vs_persist_directory = None\<rparr>, Map.empty)"
  by (simp add: raptor_vectorstore_def Chroma_from_documents_def raptor_example_def
      bind_def chroma_open_def chroma_flush_def)

text \<open>
  Running the indexing cell on an empty disk leaves the chunk of the loaded document, with
  its embedding, in the directory \<open>data/vectorstore\<close>.
\<close>

theorem vectorstore_written:
  "build_vectorstore pdf_loader id (embed_documents raptor_example) Map.empty
     = Inr (\<lparr>vs_entries = [(''QLoRA paper'', [11])], vs_persist_directory = Some ''data/vectorstore''\<rparr>,
            [''data/vectorstore'' \<mapsto> [(''QLoRA paper'', [11])]])"
  by (simp only: build_is_generate generate_example)

text \<open>
  Claim C5, amended.  The cells that build a store with a \<open>persist_directory\<close> (the
  indexing cell with \<open>data/vectorstore\<close>, \<open>generate_vectorstores\<close> with its \<open>dir\<close>) write
  the chunks of the loaded documents and their embeddings into that directory and leave
  every other directory as it was; the store of the RAPTOR notebook, built without a
  \<open>persist_directory\<close>, leaves durable storage unchanged.
\<close>

theorem only_vectorstore_written:
  "(build_vectorstore loader split_documents embedding d = Inr (vs, d') \<longrightarrow>
      (\<forall>other. other \<noteq> ''data/vectorstore'' \<longrightarrow> d' other = d other)
      \<and> (\<exists>documents vecs. loader ''data/'' = Inr documents
            \<and> embedding (split_documents documents) = Inr vecs
            \<and> d' ''data/vectorstore'' =
                Some (chroma_open (Some ''data/vectorstore'') d @ zip (split_documents documents) vecs)))
   \<and> (generate_vectorstores loader1 split_documents1 embedding1 file1 dir1 d1 = Inr (vs1, d1') \<longrightarrow>
      (\<forall>other. other \<noteq> dir1 \<longrightarrow> d1' other = d1 other)
      \<and> (\<exists>documents vecs. loader1 file1 = Inr documents
            \<and> embedding1 (split_documents1 documents) = Inr vecs
            \<and> d1' dir1 = Some (chroma_open (Some dir1) d1 @ zip (split_documents1 documents) vecs)))
   \<and> (raptor_vectorstore embedding2 leaf_texts results d2 = Inr (vs2, d2') \<longrightarrow> d2' = d2)"
  using generate_vectorstores_disk raptor_vectorstore_disk
  by (simp only: build_is_generate) blast


theorem only_vectorstore_written_witness:
  "build_vectorstore pdf_loader id (embed_documents raptor_example) Map.empty
     = Inr (\<lparr>vs_entries = [(''QLoRA paper'', [11])], vs_persist_directory = Some ''data/vectorstore''\<rparr>,
            [''data/vectorstore'' \<mapsto> [(''QLoRA paper'', [11])]])
   \<and> generate_vectorstores pdf_loader id (embed_documents raptor_example)
        ''data/LoRA.pdf'' ''data/vectorstore_lora'' Map.empty
     = Inr (\<lparr>vs_entries = [(''QLoRA paper'', [11])], vs_persist_directory = Some ''data/vectorstore_lora''\<rparr>,
            [''data/vectorstore_lora'' \<mapsto> [(''QLoRA paper'', [11])]])
   \<and> raptor_vectorstore (embed_documents raptor_example) [''leaf''] [] Map.empty
     = Inr (\<lparr>vs_entries = [(''leaf'', [4])], vs_persist_directory = None\<rparr>, Map.empty)
   \<and> [''data/vectorstore'' \<mapsto> [(''QLoRA paper'', [11 :: rat])]] ''data/other'' = None
   \<and> (\<exists>documents vecs. pdf_loader ''data/'' = Inr documents
         \<and> embed_documents raptor_example (id documents) = Inr vecs
         \<and> [''data/vectorstore'' \<mapsto> [(''QLoRA paper'', [11 :: rat])]] ''data/vectorstore''
              = Some (chroma_open (Some ''data/vectorstore'') Map.empty @ zip (id documents) vecs))"
proof -
  let ?emb = "embed_documents raptor_example"
  have a: "build_vectorstore pdf_loader id ?emb Map.empty
     = Inr (\<lparr>vs_entries = [(''QLoRA paper'', [11])], vs_persist_directory = Some ''data/vectorstore''\<rparr>,
            [''data/vectorstore'' \<mapsto> [(''QLoRA paper'', [11])]])"
    by (simp only: build_is_generate generate_example)
  note b = generate_example[of "''data/LoRA.pdf''" "''data/vectorstore_lora''"]
  note c = raptor_store_example
  from only_vectorstore_written[where loader = pdf_loader and split_documents = id
      and embedding = ?emb and d = Map.empty
      and vs = "\<lparr>vs_entries = [(''QLoRA paper'', [11])], vs_persist_directory = Some ''data/vectorstore''\<rparr>"
      and d' = "[''data/vectorstore'' \<mapsto> [(''QLoRA paper'', [11])]]"
      and ?loader1.0 = pdf_loader and ?split_documents1.0 = id and ?embedding1.0 = ?emb
      and ?file1.0 = "''data/LoRA.pdf''" and ?dir1.0 = "''data/vectorstore_lora''" and ?d1.0 = Map.empty
      and ?vs1.0 = "\<lparr>vs_entries = [(''QLoRA paper'', [11])], vs_persist_directory = Some ''data/vectorstore_lora''\<rparr>"
      and ?d1' = "[''data/vectorstore_lora'' \<mapsto> [(''QLoRA paper'', [11])]]"
      and ?embedding2.0 = ?emb and leaf_texts = "[''leaf'']" and results = "[]" and ?d2.0 = Map.empty
      and ?vs2.0 = "\<lparr>vs_entries = [(''leaf'', [4])], vs_persist_directory = None\<rparr>"
      and ?d2' = Map.empty] a b c
  show ?thesis by simp
qed

section \<open>Properties of the RAPTOR routine\<close>

subsection \<open>Runs and their steps\<close>

lemma io_bind_Inr:
  "io_bind m f = (t, Inr y) \<longleftrightarrow> (\<exists>t1 x t2. m = (t1, Inr x) \<and> f x = (t2, Inr y) \<and> t = t1 @ t2)"
  by (cases m; cases "snd m") (auto simp: io_bind_def split: prod.splits)



lemma io_bind_call: "io_bind (io_call ev r) f =
   (case r of Inl e \<Rightarrow> ([ev], Inl e) | Inr x \<Rightarrow> (ev # fst (f x), snd (f x)))"
  by (simp add: io_bind_def io_call_def split: sum.splits prod.splits)


lemma fst_io_bind_prefix: "fst m = ev # t \<Longrightarrow> \<exists>t'. fst (io_bind m f) = ev # t'"
  by (cases m; cases "snd m") (auto simp: io_bind_def split: prod.splits)

lemma embed_cluster_summarize_texts_starts:
  "\<exists>t. fst (embed_cluster_summarize_texts env texts level) = Embed texts # t"
proof -
  have "\<exists>t. fst (embed env texts) = Embed texts # t"
    by (simp add: embed_def io_call_def)
  then have "\<exists>t. fst (embed_cluster_texts env texts) = Embed texts # t"
    unfolding embed_cluster_texts_def by (auto dest: fst_io_bind_prefix)
  then show ?thesis
    unfolding embed_cluster_summarize_texts_def by (auto dest: fst_io_bind_prefix)
qed

lemma recursive_starts:
  "\<exists>t. fst (recursive_embed_cluster_summarize env texts level n_levels) = Embed texts # t"
proof -
  obtain t0 where t0: "fst (embed_cluster_summarize_texts env texts level) = Embed texts # t0"
    using embed_cluster_summarize_texts_starts by blast
  show ?thesis
    using t0 by (cases "embed_cluster_summarize_texts env texts level")
      (auto simp del: recursive_embed_cluster_summarize.simps
            simp add: recursive_embed_cluster_summarize.simps[of env texts level n_levels]
            split: sum.splits prod.splits)
qed

lemma recursive_error:
  "embed_cluster_summarize_texts env texts level = (t, Inl e) \<Longrightarrow>
     recursive_embed_cluster_summarize env texts level n_levels = (t, Inl e)"
  by (simp add: recursive_embed_cluster_summarize.simps)

lemma recursive_stop:
  "embed_cluster_summarize_texts env texts level = (t, Inr (dfc, dfs)) \<Longrightarrow>
   \<not> (level < n_levels \<and> nunique dfs > 1) \<Longrightarrow>
     recursive_embed_cluster_summarize env texts level n_levels = (t, Inr [(level, (dfc, dfs))])"
  by (auto simp: recursive_embed_cluster_summarize.simps[of env texts level n_levels])

lemma recursive_step:
  assumes "embed_cluster_summarize_texts env texts level = (t, Inr (dfc, dfs))"
    and "level < n_levels" and "nunique dfs > 1"
  shows "recursive_embed_cluster_summarize env texts level n_levels =
     (t @ fst (recursive_embed_cluster_summarize env (map s_summaries dfs) (level + 1) n_levels),
      map_sum id (dict_update [(level, (dfc, dfs))])
        (snd (recursive_embed_cluster_summarize env (map s_summaries dfs) (level + 1) n_levels)))"
  using assms
  by (simp del: recursive_embed_cluster_summarize.simps
           add: recursive_embed_cluster_summarize.simps[of env texts level n_levels]
           split: sum.splits prod.splits)


lemma set_unique: "set (unique xs) = set xs"
  by (induction xs rule: unique.induct) auto

lemma distinct_unique: "distinct (unique xs)"
  by (induction xs rule: unique.induct) (auto simp: set_unique)

lemma summarize_clusters_length:
  "summarize_clusters env df cs acc = (t, Inr out) \<Longrightarrow> length out = length acc + length cs"
proof (induction cs arbitrary: acc t)
  case Nil
  then show ?case by (simp add: io_return_def)
next
  case (Cons i cs)
  from Cons.prems obtain t1 s t2 where
    "summarize_clusters env df cs (acc @ [s]) = (t2, Inr out)"
    by (auto simp: Let_def io_bind_Inr)
  from Cons.IH[OF this] show ?case by simp
qed

lemma summary_clusters:
  assumes "embed_cluster_summarize_texts env texts level = (t, Inr (dfc, dfs))"
  shows "map s_cluster dfs = unique (concat (map c_cluster dfc))"
    and "map s_level dfs = replicate (length dfs) level"
proof -
  let ?ex = "concat (map (\<lambda>row. map (\<lambda>c. (c_text row, c_embd row, c)) (c_cluster row)) dfc)"
  let ?all = "unique (map (\<lambda>(t, e, c). c) ?ex)"
  from assms obtain t1 t2 summaries where
    s: "summarize_clusters env ?ex ?all [] = (t2, Inr summaries)" and
    d: "dfs = map (\<lambda>(s, c). \<lparr>s_summaries = s, s_level = level, s_cluster = c\<rparr>) (zip summaries ?all)"
    by (auto simp: embed_cluster_summarize_texts_def io_bind_Inr Let_def io_return_def io_raise_def
             split: if_splits)
  from summarize_clusters_length[OF s] have l: "length summaries = length ?all" by simp
  have m: "map (\<lambda>(t, e, c). c) ?ex = concat (map c_cluster dfc)"
    by (induction dfc) (auto simp: comp_def)
  have "map s_cluster dfs = map snd (zip summaries ?all)"
    unfolding d by (simp add: comp_def case_prod_beta)
  also have "\<dots> = ?all" using l by simp
  finally show "map s_cluster dfs = unique (concat (map c_cluster dfc))"
    using m by simp
  show "map s_level dfs = replicate (length dfs) level"
    unfolding d by (simp add: comp_def case_prod_beta map_replicate_const)
qed

lemma nunique_card:
  assumes "embed_cluster_summarize_texts env texts level = (t, Inr (dfc, dfs))"
  shows "nunique dfs = card (\<Union>row\<in>set dfc. set (c_cluster row))"
    and "nunique dfs = length dfs"
proof -
  have a: "map s_cluster dfs = unique (concat (map c_cluster dfc))"
    using summary_clusters(1)[OF assms] .
  have "nunique dfs = card (set (map s_cluster dfs))"
    by (simp add: nunique_def length_remdups_card_conv)
  then show "nunique dfs = card (\<Union>row\<in>set dfc. set (c_cluster row))"
    unfolding a by (simp add: set_unique)
  have "distinct (map s_cluster dfs)"
    unfolding a by (rule distinct_unique)
  then have "remdups (map s_cluster dfs) = map s_cluster dfs"
    by (rule distinct_remdups_id)
  then have "length (remdups (map s_cluster dfs)) = length (map s_cluster dfs)"
    by (simp only:)
  then show "nunique dfs = length dfs"
    by (simp only: nunique_def length_map)
qed

text \<open>
  Claim C1.  At every level, for every list of texts and every depth limit: when the
  level's embedding, clustering and summarising raises, the routine raises the same error;
  when it succeeds, the routine recurses on the summaries of the level (the next step is
  their embedding, at the next level) if the level is below \<open>n_levels\<close> and the number of
  unique clusters of the level is greater than 1, and otherwise it stops with the results
  of this level alone.  The number of unique clusters is the number of distinct cluster
  ids assigned at the level.
\<close>

theorem recursion_condition:
  "(embed_cluster_summarize_texts env texts level = (t, Inl e) \<longrightarrow>
      recursive_embed_cluster_summarize env texts level n_levels = (t, Inl e))
   \<and> (embed_cluster_summarize_texts env1 texts1 level1 = (t1, Inr (dfc1, dfs1))
        \<and> level1 < n_levels1 \<and> nunique dfs1 > 1 \<longrightarrow>
      (\<exists>t' r. recursive_embed_cluster_summarize env1 (map s_summaries dfs1) (level1 + 1) n_levels1
                 = (Embed (map s_summaries dfs1) # t', r)
          \<and> recursive_embed_cluster_summarize env1 texts1 level1 n_levels1
                 = (t1 @ Embed (map s_summaries dfs1) # t',
                    map_sum id (dict_update [(level1, (dfc1, dfs1))]) r)))
   \<and> (embed_cluster_summarize_texts env2 texts2 level2 = (t2, Inr (dfc2, dfs2))
        \<and> \<not> (level2 < n_levels2 \<and> nunique dfs2 > 1) \<longrightarrow>
      recursive_embed_cluster_summarize env2 texts2 level2 n_levels2
        = (t2, Inr [(level2, (dfc2, dfs2))]))
   \<and> (embed_cluster_summarize_texts env3 texts3 level3 = (t3, Inr (dfc3, dfs3)) \<longrightarrow>
      nunique dfs3 = card (\<Union>row\<in>set dfc3. set (c_cluster row)))"
proof (intro conjI impI)
  assume a: "embed_cluster_summarize_texts env1 texts1 level1 = (t1, Inr (dfc1, dfs1))
        \<and> level1 < n_levels1 \<and> nunique dfs1 > 1"
  let ?rec = "recursive_embed_cluster_summarize env1 (map s_summaries dfs1) (level1 + 1) n_levels1"
  obtain t' where t': "fst ?rec = Embed (map s_summaries dfs1) # t'"
    using recursive_starts by blast
  have "?rec = (Embed (map s_summaries dfs1) # t', snd ?rec)"
    using t' by (metis prod.collapse)
  moreover have "recursive_embed_cluster_summarize env1 texts1 level1 n_levels1
                 = (t1 @ Embed (map s_summaries dfs1) # t',
                    map_sum id (dict_update [(level1, (dfc1, dfs1))]) (snd ?rec))"
    using recursive_step[of env1 texts1 level1 t1 dfc1 dfs1 n_levels1] a t' by simp
  ultimately show "\<exists>t' r. ?rec = (Embed (map s_summaries dfs1) # t', r)
          \<and> recursive_embed_cluster_summarize env1 texts1 level1 n_levels1
                 = (t1 @ Embed (map s_summaries dfs1) # t',
                    map_sum id (dict_update [(level1, (dfc1, dfs1))]) r)"
    by blast
qed (auto simp: recursive_error recursive_stop nunique_card(1)
          simp del: recursive_embed_cluster_summarize.simps)


lemma update_absent: "k \<notin> fst ` set al \<Longrightarrow> AList.update k v al = al @ [(k, v)]"
  by (induction al) auto

lemma dict_update_fresh:
  "distinct (map fst other) \<Longrightarrow> fst ` set results \<inter> fst ` set other = {} \<Longrightarrow>
     dict_update results other = results @ other"
proof (induction other arbitrary: results)
  case Nil
  then show ?case by (simp add: dict_update_def)
next
  case (Cons kv other)
  obtain k v where kv: "kv = (k, v)" by (cases kv)
  have a: "AList.update k v results = results @ [(k, v)]"
    using Cons.prems(2) kv by (intro update_absent) auto
  have "dict_update (results @ [(k, v)]) other = (results @ [(k, v)]) @ other"
    using Cons.prems kv by (intro Cons.IH) auto
  then show ?case
    using a kv by (simp add: dict_update_def)
qed

lemma recursive_keys:
  "recursive_embed_cluster_summarize env texts level n_levels = (t, Inr results) \<Longrightarrow>
     \<exists>L. level \<le> L \<and> (L \<le> n_levels \<or> L = level) \<and> map fst results = [level..L]"
proof (induction env texts level n_levels arbitrary: t results
       rule: recursive_embed_cluster_summarize.induct)
  case (1 env texts level n_levels)
  from "1.prems" obtain t0 dfc dfs where
    e: "embed_cluster_summarize_texts env texts level = (t0, Inr (dfc, dfs))"
    by (auto simp: recursive_embed_cluster_summarize.simps[of env texts level n_levels]
             split: sum.splits prod.splits)
  show ?case
  proof (cases "level < n_levels \<and> nunique dfs > 1")
    case False
    from recursive_stop[OF e False] "1.prems" have "results = [(level, (dfc, dfs))]"
      by simp
    then show ?thesis by (intro exI[of _ level]) simp
  next
    case True
    let ?rec = "recursive_embed_cluster_summarize env (map s_summaries dfs) (level + 1) n_levels"
    from recursive_step[OF e] True "1.prems" obtain nxt where
      n: "snd ?rec = Inr nxt" and r: "results = dict_update [(level, (dfc, dfs))] nxt"
      by (cases "snd ?rec") auto
    have "?rec = (fst ?rec, Inr nxt)" using n by (metis prod.collapse)
    from "1.IH"[OF e[symmetric] refl refl _ this] True
    obtain L where L: "level + 1 \<le> L" "L \<le> n_levels \<or> L = level + 1" "map fst nxt = [level + 1..L]"
      by auto
    have d: "distinct (map fst nxt)" using L(3) by simp
    have "fst ` set nxt = set (map fst nxt)" by simp
    then have "level \<notin> fst ` set nxt" unfolding L(3) by simp
    then have "fst ` set [(level, (dfc, dfs))] \<inter> fst ` set nxt = {}" by simp
    from dict_update_fresh[OF d this] r have "results = (level, (dfc, dfs)) # nxt" by simp
    then have "map fst results = level # [level + 1..L]" using L(3) by simp
    also have "\<dots> = [level..L]" using L(1) by (simp add: upto_rec1)
    finally show ?thesis using L True by (intro exI[of _ L]) auto
  qed
qed


subsection \<open>Model selection and soft assignment\<close>

lemma io_bind_trace:
  "fst (io_bind m f) = fst m @ (case snd m of Inl e \<Rightarrow> [] | Inr x \<Rightarrow> fst (f x))"
  by (cases m; cases "snd m") (auto simp: io_bind_def split: prod.splits)

lemma list_all_io_bind:
  assumes "list_all P (fst m)" and "\<And>x. snd m = Inr x \<Longrightarrow> list_all P (fst (f x))"
  shows "list_all P (fst (io_bind m f))"
  using assms by (auto simp: io_bind_trace split: sum.splits)

lemma bic_loop_iff:
  "bic_loop env X rs ns acc = (t, Inr bics) \<longleftrightarrow>
     (\<forall>n\<in>set ns. \<exists>b. gm_bic env n rs X = Inr b)
     \<and> t = map (\<lambda>n. GMMFit n rs X) ns
     \<and> bics = acc @ map (bic_value env rs X) ns"
proof (induction ns arbitrary: acc t)
  case Nil
  then show ?case by (auto simp: io_return_def)
next
  case (Cons n ns)
  show ?case
  proof (cases "gm_bic env n rs X")
    case (Inl e)
    then show ?thesis by (auto simp: io_bind_call)
  next
    case (Inr b)
    then have "bic_loop env X rs (n # ns) acc =
        (GMMFit n rs X # fst (bic_loop env X rs ns (acc @ [b])), snd (bic_loop env X rs ns (acc @ [b])))"
      by (simp add: io_bind_call)
    then have "bic_loop env X rs (n # ns) acc = (t, Inr bics) \<longleftrightarrow>
        (\<exists>t'. t = GMMFit n rs X # t' \<and> bic_loop env X rs ns (acc @ [b]) = (t', Inr bics))"
      by (cases "bic_loop env X rs ns (acc @ [b])") auto
    then show ?thesis
      using Inr by (auto simp: Cons.IH bic_value_def)
  qed
qed

lemma bic_loop_trace: "list_all P (map (\<lambda>n. GMMFit n rs X) ns) \<Longrightarrow> list_all P (fst (bic_loop env X rs ns acc))"
proof (induction ns arbitrary: acc)
  case Nil
  then show ?case by (simp add: io_return_def)
next
  case (Cons n ns)
  then show ?case
    by (auto simp: io_bind_call split: sum.splits)
qed

lemma first_index_props:
  "y \<in> set xs \<Longrightarrow> first_index xs y < length xs \<and> xs ! first_index xs y = y
      \<and> (\<forall>j<first_index xs y. xs ! j \<noteq> y)"
proof (induction xs)
  case Nil
  then show ?case by simp
next
  case (Cons x xs)
  then show ?case by (auto simp: nth_Cons split: nat.splits)
qed

lemma argmin_props:
  assumes "xs \<noteq> []"
  shows "\<exists>i. argmin xs = Inr i \<and> i < length xs \<and> (\<forall>j<length xs. xs ! i \<le> xs ! j)
           \<and> (\<forall>j<i. xs ! i < xs ! j)"
proof -
  obtain x rest where xs: "xs = x # rest" using assms by (cases xs) auto
  let ?m = "fold min rest x"
  have m: "?m = Min (set xs)" unfolding xs by (rule Min.set_eq_fold[symmetric])
  then have mem: "?m \<in> set xs" using assms by (metis List.finite_set Min_in set_empty)
  have le: "?m \<le> y" if "y \<in> set xs" for y using m that by simp
  let ?i = "first_index xs ?m"
  from first_index_props[OF mem] have
    i: "?i < length xs" "xs ! ?i = ?m" "\<forall>j<?i. xs ! j \<noteq> ?m" by auto
  have a: "argmin xs = Inr ?i" unfolding argmin_def xs by simp
  have b: "\<forall>j<length xs. xs ! ?i \<le> xs ! j" using i(2) le by simp
  have c: "\<forall>j<?i. xs ! ?i < xs ! j"
  proof (intro allI impI)
    fix j assume j: "j < ?i"
    then have "xs ! j \<noteq> ?m" using i(3) by simp
    moreover have "?m \<le> xs ! j" using le j i(1) by simp
    ultimately show "xs ! ?i < xs ! j" using i(2) by simp
  qed
  show ?thesis using a i(1) b c by blast
qed

lemma argmin_empty: "argmin [] = Inl ValueError"
  by (simp add: argmin_def)

lemma get_optimal_clusters_trace:
  "fst (get_optimal_clusters env X mc rs) =
     OptimalClusters X # fst (bic_loop env X rs [1..<min mc (length X)] [])"
  by (auto simp: get_optimal_clusters_def Let_def io_bind_call io_bind_trace io_lift_def io_return_def
        split: sum.splits)

lemma get_optimal_clusters_Inr:
  "get_optimal_clusters env X mc rs = (t, Inr n) \<longleftrightarrow>
     (\<forall>c\<in>{1..<min mc (length X)}. \<exists>b. gm_bic env c rs X = Inr b)
     \<and> t = OptimalClusters X # map (\<lambda>c. GMMFit c rs X) [1..<min mc (length X)]
     \<and> (\<exists>i. argmin (map (bic_value env rs X) [1..<min mc (length X)]) = Inr i \<and> n = Suc i)
     \<and> 2 \<le> min mc (length X)"
proof -
  let ?ns = "[1..<min mc (length X)]"
  let ?bs = "map (bic_value env rs X) ?ns"
  have u: "get_optimal_clusters env X mc rs =
      (OptimalClusters X # fst (io_bind (bic_loop env X rs ?ns []) (\<lambda>bics.
         io_bind (io_lift (argmin bics)) (\<lambda>i. io_return (?ns ! i)))),
       snd (io_bind (bic_loop env X rs ?ns []) (\<lambda>bics.
         io_bind (io_lift (argmin bics)) (\<lambda>i. io_return (?ns ! i)))))"
    by (simp add: get_optimal_clusters_def Let_def io_bind_call)
  have "get_optimal_clusters env X mc rs = (t, Inr n) \<longleftrightarrow>
      (\<exists>t'. t = OptimalClusters X # t' \<and>
         io_bind (bic_loop env X rs ?ns []) (\<lambda>bics.
           io_bind (io_lift (argmin bics)) (\<lambda>i. io_return (?ns ! i))) = (t', Inr n))"
    unfolding u by (auto simp: prod_eq_iff)
  also have "\<dots> \<longleftrightarrow> (\<forall>c\<in>set ?ns. \<exists>b. gm_bic env c rs X = Inr b)
      \<and> t = OptimalClusters X # map (\<lambda>c. GMMFit c rs X) ?ns
      \<and> (\<exists>i. argmin ?bs = Inr i \<and> n = ?ns ! i)"
    by (auto simp: io_bind_Inr bic_loop_iff io_lift_def io_return_def)
  also have "\<dots> \<longleftrightarrow> (\<forall>c\<in>set ?ns. \<exists>b. gm_bic env c rs X = Inr b)
      \<and> t = OptimalClusters X # map (\<lambda>c. GMMFit c rs X) ?ns
      \<and> (\<exists>i. argmin ?bs = Inr i \<and> n = Suc i) \<and> 2 \<le> min mc (length X)"
  proof (cases "?ns = []")
    case True
    then have "?bs = []" by (simp only: list.map)
    then have "argmin ?bs = Inl ValueError" by (simp only: argmin_empty)
    moreover have "\<not> 2 \<le> min mc (length X)" using True by (auto simp: min_def split: if_splits)
    ultimately show ?thesis by auto
  next
    case False
    then have ne: "?bs \<noteq> []" by simp
    from argmin_props[OF ne] obtain i where i: "argmin ?bs = Inr i" "i < length ?bs" by blast
    then have "Suc 0 + i < min mc (length X)" by (simp del: min_less_iff_conj)
    then have "[Suc 0..<min mc (length X)] ! i = Suc 0 + i" by (rule nth_upt)
    then have "?ns ! i = Suc i" by simp
    moreover have "2 \<le> min mc (length X)" using False by (auto simp: min_def split: if_splits)
    ultimately show ?thesis using i by auto
  qed
  finally show ?thesis by simp
qed

lemma GMM_cluster_Inr:
  "GMM_cluster env X thr rs = (t, Inr (labels, n)) \<longleftrightarrow>
     (\<exists>t0 probs. get_optimal_clusters env X 50 RANDOM_SEED = (t0, Inr n)
        \<and> gm_predict_proba env n rs X = Inr probs
        \<and> t = t0 @ [GMMFit n rs X]
        \<and> labels = map (above_threshold thr) probs)"
  by (auto simp: GMM_cluster_def io_bind_Inr io_call_def io_return_def)

lemma above_threshold_set:
  "set (above_threshold thr prob) = {j. j < length prob \<and> thr < prob ! j}"
  by (auto simp: above_threshold_def)

lemma above_threshold_sorted: "sorted (above_threshold thr prob) \<and> distinct (above_threshold thr prob)"
  by (simp add: above_threshold_def sorted_wrt_filter)

lemma GMM_cluster_props:
  assumes "GMM_cluster env X thr rs = (t, Inr (labels, n))"
  shows "(\<exists>t0. get_optimal_clusters env X 50 RANDOM_SEED = (t0, Inr n))
       \<and> n \<in> {1..<min 50 (length X)}
       \<and> (\<forall>c\<in>{1..<min 50 (length X)}. (\<exists>b. gm_bic env c RANDOM_SEED X = Inr b)
             \<and> bic_value env RANDOM_SEED X n \<le> bic_value env RANDOM_SEED X c)
       \<and> (\<forall>c\<in>{1..<n}. bic_value env RANDOM_SEED X n < bic_value env RANDOM_SEED X c)
       \<and> (\<exists>probs. gm_predict_proba env n rs X = Inr probs \<and> length labels = length probs
             \<and> (\<forall>i<length probs. set (labels ! i) = {j. j < length (probs ! i) \<and> thr < probs ! i ! j}
                    \<and> sorted (labels ! i) \<and> distinct (labels ! i)))"
proof -
  let ?ns = "[1..<min 50 (length X)]"
  let ?bs = "map (bic_value env RANDOM_SEED X) ?ns"
  from assms obtain t0 probs where
    g: "get_optimal_clusters env X 50 RANDOM_SEED = (t0, Inr n)" and
    p: "gm_predict_proba env n rs X = Inr probs" and
    l: "labels = map (above_threshold thr) probs"
    by (auto simp: GMM_cluster_Inr)
  from g obtain i where
    ok: "\<forall>c\<in>{1..<min 50 (length X)}. \<exists>b. gm_bic env c RANDOM_SEED X = Inr b" and
    a: "argmin ?bs = Inr i" and n: "n = Suc i" and two: "2 \<le> min 50 (length X)"
    by (auto simp: get_optimal_clusters_Inr)
  have ne: "?bs \<noteq> []" using two by (auto simp: min_def split: if_splits)
  from argmin_props[OF ne] a have
    i: "i < length ?bs" and mn: "\<forall>j<length ?bs. ?bs ! i \<le> ?bs ! j" and fs: "\<forall>j<i. ?bs ! i < ?bs ! j"
    by auto
  have len: "length ?bs = min 50 (length X) - 1" by simp
  have nth: "?bs ! j = bic_value env RANDOM_SEED X (Suc j)" if "j < length ?bs" for j
  proof -
    from that have "Suc 0 + j < min 50 (length X)" by (simp del: min_less_iff_conj)
    then have "[Suc 0..<min 50 (length X)] ! j = Suc 0 + j" by (rule nth_upt)
    then show ?thesis using that by simp
  qed
  have nin: "n \<in> {1..<min 50 (length X)}" using i n by (simp del: min_less_iff_conj)
  have le: "bic_value env RANDOM_SEED X n \<le> bic_value env RANDOM_SEED X c"
    if "c \<in> {1..<min 50 (length X)}" for c
  proof -
    from that obtain j where j: "c = Suc j" "j < length ?bs"
      by (cases c) (auto simp del: min_less_iff_conj)
    from mn j(2) have "?bs ! i \<le> ?bs ! j" by blast
    then show ?thesis using nth[OF i] nth[OF j(2)] n j(1) by simp
  qed
  have lt: "bic_value env RANDOM_SEED X n < bic_value env RANDOM_SEED X c" if "c \<in> {1..<n}" for c
  proof -
    from that n obtain j where j: "c = Suc j" "j < i" by (cases c) auto
    then have jl: "j < length ?bs" using i by simp
    from fs j(2) have "?bs ! i < ?bs ! j" by blast
    then show ?thesis using nth[OF i] nth[OF jl] n j(1) by simp
  qed
  have pr: "\<forall>i<length probs. set (labels ! i) = {j. j < length (probs ! i) \<and> thr < probs ! i ! j}
                    \<and> sorted (labels ! i) \<and> distinct (labels ! i)"
    unfolding l by (simp add: above_threshold_set above_threshold_sorted)
  show ?thesis
    using g nin ok le lt p l pr by auto
qed

lemma GMM_cluster_succeeds:
  assumes "2 \<le> length X"
    and "\<forall>c\<in>{1..<min 50 (length X)}. \<exists>b. gm_bic env c RANDOM_SEED X = Inr b"
    and "\<forall>c\<in>{1..<min 50 (length X)}. \<exists>p. gm_predict_proba env c rs X = Inr p"
  shows "\<exists>t labels n. GMM_cluster env X thr rs = (t, Inr (labels, n))"
proof -
  let ?ns = "[1..<min 50 (length X)]"
  let ?bs = "map (bic_value env RANDOM_SEED X) ?ns"
  have two: "2 \<le> min 50 (length X)" using assms(1) by simp
  then have ne: "?bs \<noteq> []" by (auto simp: min_def split: if_splits)
  from argmin_props[OF ne] obtain i where i: "argmin ?bs = Inr i" "i < length ?bs" by blast
  have g: "get_optimal_clusters env X 50 RANDOM_SEED =
      (OptimalClusters X # map (\<lambda>c. GMMFit c RANDOM_SEED X) ?ns, Inr (Suc i))"
    using assms(2) i(1) two by (simp add: get_optimal_clusters_Inr)
  have "Suc i \<in> {1..<min 50 (length X)}" using i(2) by (simp del: min_less_iff_conj)
  with assms(3) obtain p where "gm_predict_proba env (Suc i) rs X = Inr p" by blast
  with g show ?thesis by (auto simp: GMM_cluster_Inr)
qed

text \<open>
  Claim C3.  On at least 2 embeddings, when the mixture model can be fitted for every
  candidate number of components, \<open>GMM_cluster\<close> returns.  Whenever it returns, the number
  of components is the one \<open>get_optimal_clusters\<close> computes, a candidate from 1 to
  \<open>min(50, number of embeddings) - 1\<close> whose BIC is least among the candidates (the first
  such), and each embedding is labelled with exactly the component indices whose posterior
  probability exceeds the threshold: none, one or several.
\<close>

theorem GMM_cluster_soft_assignment:
  "(2 \<le> length X
      \<and> (\<forall>c\<in>{1..<min 50 (length X)}. \<exists>b. gm_bic env c RANDOM_SEED X = Inr b)
      \<and> (\<forall>c\<in>{1..<min 50 (length X)}. \<exists>p. gm_predict_proba env c rs X = Inr p) \<longrightarrow>
      (\<exists>t labels n. GMM_cluster env X threshold rs = (t, Inr (labels, n))))
   \<and> (GMM_cluster env1 X1 threshold1 rs1 = (t1, Inr (labels1, n1)) \<longrightarrow>
       (\<exists>t0. get_optimal_clusters env1 X1 50 RANDOM_SEED = (t0, Inr n1))
       \<and> n1 \<in> {1..<min 50 (length X1)}
       \<and> (\<forall>c\<in>{1..<min 50 (length X1)}. (\<exists>b. gm_bic env1 c RANDOM_SEED X1 = Inr b)
             \<and> bic_value env1 RANDOM_SEED X1 n1 \<le> bic_value env1 RANDOM_SEED X1 c)
       \<and> (\<forall>c\<in>{1..<n1}. bic_value env1 RANDOM_SEED X1 n1 < bic_value env1 RANDOM_SEED X1 c)
       \<and> (\<exists>probs. gm_predict_proba env1 n1 rs1 X1 = Inr probs \<and> length labels1 = length probs
             \<and> (\<forall>i<length probs.
                    set (labels1 ! i) = {j. j < length (probs ! i) \<and> threshold1 < probs ! i ! j}
                    \<and> sorted (labels1 ! i) \<and> distinct (labels1 ! i))))"
  using GMM_cluster_succeeds[of X env rs threshold] GMM_cluster_props[of env1 X1 threshold1 rs1 t1 labels1 n1]
  by blast

subsection \<open>The steps of \<open>perform_clustering\<close>\<close>

lemma GMM_cluster_events:
  assumes "P (OptimalClusters X)" and "\<And>n rs. P (GMMFit n rs X)"
  shows "list_all P (fst (GMM_cluster env X thr rs))"
proof -
  have "list_all P (map (\<lambda>n. GMMFit n RANDOM_SEED X) [1..<min 50 (length X)])"
    using assms(2) by (simp add: list_all_iff)
  then have "list_all P (fst (bic_loop env X RANDOM_SEED [1..<min 50 (length X)] []))"
    by (rule bic_loop_trace)
  then have a: "list_all P (fst (get_optimal_clusters env X 50 RANDOM_SEED))"
    unfolding get_optimal_clusters_trace using assms(1) by simp
  show ?thesis
    unfolding GMM_cluster_def
    by (intro list_all_io_bind a) (auto simp: io_call_def io_return_def assms)
qed

lemma local_clustering_events:
  assumes L: "\<And>X nn d. P (LocalUMAP X nn d)"
    and F: "\<And>n rs X. P (GMMFit n rs X)"
    and O: "\<And>Y. good Y \<Longrightarrow> P (OptimalClusters Y)"
    and G: "\<And>nn X Y. umap_fit_transform env nn dims X = Inr Y \<Longrightarrow> dims + 1 < int (length X) \<Longrightarrow> good Y"
  shows "list_all P (fst (local_clustering env members dims thr))"
proof (cases "int (length members) \<le> dims + 1")
  case True
  then show ?thesis by (simp add: local_clustering_def io_return_def)
next
  case False
  have "list_all P (fst (io_bind (local_cluster_embeddings env members dims)
          (\<lambda>reduced. GMM_cluster env reduced thr 0)))"
  proof (intro list_all_io_bind)
    show "list_all P (fst (local_cluster_embeddings env members dims))"
      by (simp add: local_cluster_embeddings_def io_call_def L)
  next
    fix Y assume "snd (local_cluster_embeddings env members dims) = Inr Y"
    then have "umap_fit_transform env 10 dims members = Inr Y"
      by (simp add: local_cluster_embeddings_def io_call_def)
    from G[OF this] False have "good Y" by simp
    then show "list_all P (fst (GMM_cluster env Y thr 0))"
      by (intro GMM_cluster_events O F)
  qed
  with False show ?thesis by (simp add: local_clustering_def)
qed

lemma global_cluster_step_trace:
  "fst (global_cluster_step env embeddings dims thr gcs i st) =
     (case mask_select embeddings (map (\<lambda>gc. i \<in> set gc) gcs) of
        Inl e \<Rightarrow> []
      | Inr members \<Rightarrow> if length members = 0 then []
                       else fst (local_clustering env members dims thr))"
  by (cases st)
     (auto simp: global_cluster_step_def io_bind_trace io_lift_def io_return_def
           split: sum.splits prod.splits)

lemma global_cluster_loop_events:
  assumes L: "\<And>X nn d. P (LocalUMAP X nn d)"
    and F: "\<And>n rs X. P (GMMFit n rs X)"
    and O: "\<And>Y. good Y \<Longrightarrow> P (OptimalClusters Y)"
    and G: "\<And>nn X Y. umap_fit_transform env nn dims X = Inr Y \<Longrightarrow> dims + 1 < int (length X) \<Longrightarrow> good Y"
  shows "list_all P (fst (global_cluster_loop env embeddings dims thr gcs is st))"
proof (induction "is" arbitrary: st)
  case Nil
  then show ?case by (simp add: io_return_def)
next
  case (Cons i "is")
  have "list_all P (fst (global_cluster_step env embeddings dims thr gcs i st))"
    unfolding global_cluster_step_trace
    using local_clustering_events[of P good env dims, OF L F O G]
    by (auto split: sum.splits)
  then show ?case
    by (auto intro!: list_all_io_bind Cons.IH)
qed

lemma perform_clustering_events:
  assumes U: "\<And>X nn d. P (GlobalUMAP X nn d)"
    and L: "\<And>X nn d. P (LocalUMAP X nn d)"
    and F: "\<And>n rs X. P (GMMFit n rs X)"
    and O: "\<And>Y. good Y \<Longrightarrow> P (OptimalClusters Y)"
    and G: "\<And>nn X Y. umap_fit_transform env nn dims X = Inr Y \<Longrightarrow> dims + 1 < int (length X) \<Longrightarrow> good Y"
  shows "list_all P (fst (perform_clustering env embeddings dims thr))"
proof (cases "int (length embeddings) \<le> dims + 1")
  case True
  then show ?thesis by (simp add: perform_clustering_def io_return_def)
next
  case False
  have "list_all P (fst (io_bind (global_cluster_embeddings env embeddings dims) (\<lambda>reduced.
        io_bind (GMM_cluster env reduced thr 0) (\<lambda>(gcs, n).
        io_bind (global_cluster_loop env embeddings dims thr gcs [0..<n] (map (\<lambda>_. []) embeddings, 0))
          (\<lambda>(al, total). io_return al)))))"
  proof (intro list_all_io_bind)
    show "list_all P (fst (global_cluster_embeddings env embeddings dims))"
      by (simp add: global_cluster_embeddings_def io_call_def io_raise_def U Let_def)
  next
    fix Y assume "snd (global_cluster_embeddings env embeddings dims) = Inr Y"
    then have "umap_fit_transform env (int_sqrt (length embeddings - 1)) dims embeddings = Inr Y"
      by (simp add: global_cluster_embeddings_def io_call_def io_raise_def Let_def split: if_splits)
    from G[OF this] False have "good Y" by simp
    then show "list_all P (fst (GMM_cluster env Y thr 0))"
      by (intro GMM_cluster_events O F)
  next
    fix Y x assume "snd (GMM_cluster env Y thr 0) = Inr x"
    show "list_all P (fst (case x of (gcs, n) \<Rightarrow>
        io_bind (global_cluster_loop env embeddings dims thr gcs [0..<n] (map (\<lambda>_. []) embeddings, 0))
          (\<lambda>(al, total). io_return al)))"
      using global_cluster_loop_events[of P good env dims, OF L F O G]
      by (cases x) (auto intro!: list_all_io_bind simp: io_return_def)
  qed
  with False show ?thesis by (simp add: perform_clustering_def)
qed

lemma perform_clustering_small:
  "int (length embeddings) \<le> dims + 1 \<Longrightarrow>
     perform_clustering env embeddings dims thr = ([], Inr (map (\<lambda>_. [0]) embeddings))"
  by (simp add: perform_clustering_def io_return_def)

lemma optimal_clusters_reached:
  assumes "0 \<le> dims" and "umap_keeps_rows env"
    and "OptimalClusters X \<in> set (fst (perform_clustering env embeddings dims thr))"
  shows "2 \<le> length X"
proof -
  let ?P = "\<lambda>ev. \<forall>Y. ev = OptimalClusters Y \<longrightarrow> 2 \<le> length Y"
  have "list_all ?P (fst (perform_clustering env embeddings dims thr))"
  proof (rule perform_clustering_events[where good = "\<lambda>Y. 2 \<le> length Y"])
    fix nn X Y
    assume "umap_fit_transform env nn dims X = Inr Y" "dims + 1 < int (length X)"
    then show "2 \<le> length Y"
      using assms(1,2) by (auto simp: umap_keeps_rows_def)
  qed auto
  then show ?thesis using assms(3) by (auto simp: list_all_iff)
qed

lemma get_optimal_clusters_defined:
  assumes "2 \<le> length X" and "2 \<le> max_clusters"
    and "\<forall>c\<in>{1..<min max_clusters (length X)}. \<exists>b. gm_bic env c rs X = Inr b"
  shows "[1..<min max_clusters (length X)] \<noteq> []
      \<and> (\<exists>t n. get_optimal_clusters env X max_clusters rs = (t, Inr n)
             \<and> n \<in> {1..<min max_clusters (length X)})"
proof -
  let ?ns = "[1..<min max_clusters (length X)]"
  let ?bs = "map (bic_value env rs X) ?ns"
  have two: "2 \<le> min max_clusters (length X)" using assms(1,2) by simp
  then have ne: "?bs \<noteq> []" by (auto simp: min_def split: if_splits)
  from argmin_props[OF ne] obtain i where i: "argmin ?bs = Inr i" "i < length ?bs" by blast
  have g: "get_optimal_clusters env X max_clusters rs =
      (OptimalClusters X # map (\<lambda>c. GMMFit c rs X) ?ns, Inr (Suc i))"
    using assms(3) i(1) two by (simp add: get_optimal_clusters_Inr)
  have "Suc i \<in> {1..<min max_clusters (length X)}" using i(2) by (simp del: min_less_iff_conj)
  with g ne show ?thesis by auto
qed

subsection \<open>Depth of the recursion\<close>

lemma levels_run_append: "levels_run (t @ t') = levels_run t + levels_run t'"
  by (simp add: levels_run_def)

lemma levels_run_Nil: "levels_run [] = 0"
  by (simp add: levels_run_def)

lemma levels_run_none: "list_all (\<lambda>ev. \<not> is_embed ev) t \<Longrightarrow> levels_run t = 0"
  by (simp add: levels_run_def list_all_iff)

lemma summarize_clusters_events:
  "list_all (\<lambda>ev. \<not> is_embed ev) (fst (summarize_clusters env df cs acc))"
proof (induction cs arbitrary: acc)
  case Nil
  then show ?case by (simp add: io_return_def)
next
  case (Cons i cs)
  then show ?case
    by (auto simp: Let_def io_bind_call split: sum.splits)
qed

lemma embed_cluster_texts_trace:
  "fst (embed_cluster_texts env texts) =
     Embed texts # (case embed_documents env texts of
                      Inl e \<Rightarrow> []
                    | Inr emb \<Rightarrow> fst (perform_clustering env emb 10 (1 / 10)))"
  by (auto simp: embed_cluster_texts_def embed_def io_bind_call io_bind_trace io_raise_def
        io_return_def split: sum.splits)

lemma embed_cluster_texts_levels: "levels_run (fst (embed_cluster_texts env texts)) = 1"
proof -
  have "list_all (\<lambda>ev. \<not> is_embed ev) (fst (perform_clustering env emb 10 (1 / 10)))" for emb
    by (rule perform_clustering_events[where good = "\<lambda>Y. True"]) auto
  then have "levels_run (fst (perform_clustering env emb 10 (1 / 10))) = 0" for emb
    by (rule levels_run_none)
  then show ?thesis
    unfolding embed_cluster_texts_trace
    by (cases "embed_documents env texts") (simp_all add: levels_run_def)
qed

lemma embed_cluster_summarize_texts_levels:
  "levels_run (fst (embed_cluster_summarize_texts env texts level)) = 1"
proof -
  let ?k = "\<lambda>df_clusters.
       let expanded_list =
             concat (map (\<lambda>row. map (\<lambda>c. (c_text row, c_embd row, c)) (c_cluster row)) df_clusters)
       in if expanded_list = [] then io_raise KeyError
          else
            let all_clusters = unique (map (\<lambda>(t, e, c). c) expanded_list)
            in io_bind (summarize_clusters env expanded_list all_clusters []) (\<lambda>summaries.
                 io_return
                   (df_clusters,
                    map (\<lambda>(s, c). \<lparr>s_summaries = s, s_level = level, s_cluster = c\<rparr>)
                      (zip summaries all_clusters)))"
  have k0: "levels_run (fst (?k df)) = 0" for df
    using summarize_clusters_events[THEN levels_run_none]
    by (auto simp: Let_def io_raise_def io_return_def io_bind_trace levels_run_append
             levels_run_Nil split: sum.splits)
  have "embed_cluster_summarize_texts env texts level = io_bind (embed_cluster_texts env texts) ?k"
    by (simp only: embed_cluster_summarize_texts_def)
  then have "levels_run (fst (embed_cluster_summarize_texts env texts level)) =
      levels_run (fst (embed_cluster_texts env texts)
        @ (case snd (embed_cluster_texts env texts) of Inl e \<Rightarrow> [] | Inr x \<Rightarrow> fst (?k x)))"
    by (simp only: io_bind_trace)
  also have "\<dots> = 1"
  proof (cases "snd (embed_cluster_texts env texts)")
    case (Inl e)
    show ?thesis
      unfolding Inl sum.case levels_run_append levels_run_Nil embed_cluster_texts_levels
      by (rule add_0_right)
  next
    case (Inr x)
    have a: "levels_run (fst (?k x)) = 0" by (rule k0)
    show ?thesis
      unfolding Inr sum.case levels_run_append a embed_cluster_texts_levels
      by (rule add_0_right)
  qed
  finally show ?thesis .
qed

lemma recursive_levels:
  "levels_run (fst (recursive_embed_cluster_summarize env texts level n_levels))
     \<le> nat (n_levels - level) + 1"
proof (induction env texts level n_levels rule: recursive_embed_cluster_summarize.induct)
  case (1 env texts level n_levels)
  obtain t0 r0 where e: "embed_cluster_summarize_texts env texts level = (t0, r0)"
    by (cases "embed_cluster_summarize_texts env texts level")
  have one: "levels_run t0 = 1"
    using embed_cluster_summarize_texts_levels[of env texts level] e by simp
  show ?case
  proof (cases r0)
    case (Inl err)
    with e one show ?thesis by (simp add: recursive_error)
  next
    case (Inr p)
    obtain dfc dfs where p: "p = (dfc, dfs)" by (cases p)
    note e' = e[unfolded Inr p]
    show ?thesis
    proof (cases "level < n_levels \<and> nunique dfs > 1")
      case False
      from recursive_stop[OF e' False] one show ?thesis by simp
    next
      case True
      from "1.IH"[OF e'[symmetric] refl refl] True
      have "levels_run (fst (recursive_embed_cluster_summarize env (map s_summaries dfs)
              (level + 1) n_levels)) \<le> nat (n_levels - (level + 1)) + 1"
        by simp
      moreover have "nat (n_levels - (level + 1)) + 1 = nat (n_levels - level)"
        using True by linarith
      ultimately show ?thesis
        using recursive_step[OF e'] True one by (simp add: levels_run_append)
    qed
  qed
qed

lemma recursive_levels_results:
  "recursive_embed_cluster_summarize env texts level n_levels = (t, Inr results) \<Longrightarrow>
     levels_run t = length results"
proof (induction env texts level n_levels arbitrary: t results
       rule: recursive_embed_cluster_summarize.induct)
  case (1 env texts level n_levels)
  from "1.prems" obtain t0 dfc dfs where
    e: "embed_cluster_summarize_texts env texts level = (t0, Inr (dfc, dfs))"
    by (auto simp: recursive_embed_cluster_summarize.simps[of env texts level n_levels]
             split: sum.splits prod.splits)
  have one: "levels_run t0 = 1"
    using embed_cluster_summarize_texts_levels[of env texts level] e by simp
  show ?case
  proof (cases "level < n_levels \<and> nunique dfs > 1")
    case False
    from recursive_stop[OF e False] "1.prems" one show ?thesis by simp
  next
    case True
    let ?rec = "recursive_embed_cluster_summarize env (map s_summaries dfs) (level + 1) n_levels"
    from recursive_step[OF e] True "1.prems" obtain nxt where
      n: "snd ?rec = Inr nxt" and r: "results = dict_update [(level, (dfc, dfs))] nxt"
      and t: "t = t0 @ fst ?rec"
      by (cases "snd ?rec") auto
    have rec: "?rec = (fst ?rec, Inr nxt)" using n by (metis prod.collapse)
    from "1.IH"[OF e[symmetric] refl refl _ rec] True have l: "levels_run (fst ?rec) = length nxt"
      by simp
    from recursive_keys[OF rec] obtain L where L: "map fst nxt = [level + 1..L]" by blast
    have d: "distinct (map fst nxt)" using L by simp
    have "fst ` set nxt = set (map fst nxt)" by simp
    then have "level \<notin> fst ` set nxt" unfolding L by simp
    then have "fst ` set [(level, (dfc, dfs))] \<inter> fst ` set nxt = {}" by simp
    from dict_update_fresh[OF d this] r have "results = (level, (dfc, dfs)) # nxt" by simp
    then show ?thesis using t l one by (simp add: levels_run_append)
  qed
qed

text \<open>
  On the empty list of texts no (text, cluster) pair exists, and the routine raises
  \<open>KeyError\<close> instead of returning a dictionary.
\<close>

theorem empty_texts_raise:
  "recursive_embed_cluster_summarize raptor_example [] 1 3 = ([Embed []], Inl KeyError)"
  by code_simp

text \<open>
  Claim C4, amended.  The routine terminates on every input: it works on at most
  \<open>n_levels - level + 1\<close> levels (one, when \<open>level\<close> is not below \<open>n_levels\<close>).  Whenever it
  returns a dictionary, the keys are the consecutive levels from the starting level to
  some \<open>L\<close>, one per level worked on; started at level 1 with \<open>n_levels\<close> at least 1, they
  are 1 to \<open>L\<close> for some \<open>L\<close> not above \<open>n_levels\<close>.
\<close>

theorem recursion_levels:
  "levels_run (fst (recursive_embed_cluster_summarize env texts level n_levels))
     \<le> nat (n_levels - level) + 1
   \<and> (recursive_embed_cluster_summarize env1 texts1 level1 n_levels1 = (t1, Inr results1) \<longrightarrow>
        (\<exists>L. level1 \<le> L \<and> (L \<le> n_levels1 \<or> L = level1) \<and> map fst results1 = [level1..L])
        \<and> levels_run t1 = length results1)
   \<and> (1 \<le> n_levels2 \<and> recursive_embed_cluster_summarize env2 texts2 1 n_levels2 = (t2, Inr results2) \<longrightarrow>
        (\<exists>L. 1 \<le> L \<and> L \<le> n_levels2 \<and> map fst results2 = [1..L]))"
proof (intro conjI impI)
  assume a: "1 \<le> n_levels2 \<and> recursive_embed_cluster_summarize env2 texts2 1 n_levels2 = (t2, Inr results2)"
  then obtain L where "1 \<le> L" "L \<le> n_levels2 \<or> L = 1" "map fst results2 = [1..L]"
    using recursive_keys[of env2 texts2 1 n_levels2 t2 results2] by blast
  with a show "\<exists>L. 1 \<le> L \<and> L \<le> n_levels2 \<and> map fst results2 = [1..L]"
    by (intro exI[of _ L]) auto
qed (use recursive_levels[of env texts level n_levels] in
      \<open>auto simp: recursive_levels_results dest: recursive_keys\<close>)

subsection \<open>Entries into \<open>get_optimal_clusters\<close>\<close>

lemma summarize_clusters_llm_events:
  "(\<And>c. P (LLMInvoke c)) \<Longrightarrow> list_all P (fst (summarize_clusters env df cs acc))"
proof (induction cs arbitrary: acc)
  case Nil
  then show ?case by (simp add: io_return_def)
next
  case (Cons i cs)
  then show ?case
    by (auto simp: Let_def io_bind_call split: sum.splits)
qed

lemma embed_cluster_summarize_texts_events:
  assumes E: "\<And>texts. P (Embed texts)" and L: "\<And>c. P (LLMInvoke c)"
    and C: "\<And>emb. list_all P (fst (perform_clustering env emb 10 (1 / 10)))"
  shows "list_all P (fst (embed_cluster_summarize_texts env texts level))"
proof -
  have a: "list_all P (fst (embed_cluster_texts env texts))"
    unfolding embed_cluster_texts_trace using E C by (auto split: sum.splits)
  show ?thesis
    unfolding embed_cluster_summarize_texts_def
    by (intro list_all_io_bind a)
       (auto simp: Let_def io_raise_def io_return_def
             intro!: list_all_io_bind summarize_clusters_llm_events L)
qed

lemma recursive_events:
  "(\<And>texts. P (Embed texts)) \<Longrightarrow> (\<And>c. P (LLMInvoke c)) \<Longrightarrow>
   (\<And>emb. list_all P (fst (perform_clustering env emb 10 (1 / 10)))) \<Longrightarrow>
     list_all P (fst (recursive_embed_cluster_summarize env texts level n_levels))"
proof (induction env texts level n_levels rule: recursive_embed_cluster_summarize.induct)
  case (1 env texts level n_levels)
  obtain t0 r0 where e: "embed_cluster_summarize_texts env texts level = (t0, r0)"
    by (cases "embed_cluster_summarize_texts env texts level")
  have a: "list_all P t0"
    using embed_cluster_summarize_texts_events[of P env texts level, OF "1.prems"] e by simp
  show ?case
  proof (cases r0)
    case (Inl err)
    with e a show ?thesis by (simp add: recursive_error)
  next
    case (Inr p)
    obtain dfc dfs where p: "p = (dfc, dfs)" by (cases p)
    note e' = e[unfolded Inr p]
    show ?thesis
    proof (cases "level < n_levels \<and> nunique dfs > 1")
      case False
      from recursive_stop[OF e' False] a show ?thesis by simp
    next
      case True
      from "1.IH"[OF e'[symmetric] refl refl _ "1.prems"] True
      have "list_all P (fst (recursive_embed_cluster_summarize env (map s_summaries dfs)
              (level + 1) n_levels))"
        by simp
      then show ?thesis
        using recursive_step[OF e'] True a by simp
    qed
  qed
qed

lemma optimal_clusters_reached_in_run:
  assumes "umap_keeps_rows env"
    and "OptimalClusters X \<in> set (fst (recursive_embed_cluster_summarize env texts level n_levels))"
  shows "2 \<le> length X"
proof -
  let ?P = "\<lambda>ev. \<forall>Y. ev = OptimalClusters Y \<longrightarrow> 2 \<le> length Y"
  have c: "list_all ?P (fst (perform_clustering env emb 10 (1 / 10)))" for emb
  proof (rule perform_clustering_events[where good = "\<lambda>Y. 2 \<le> length Y"])
    fix nn X Y
    assume "umap_fit_transform env nn 10 X = Inr Y" "10 + 1 < int (length X)"
    then show "2 \<le> length Y"
      using assms(1) by (auto simp: umap_keeps_rows_def)
  qed auto
  have "list_all ?P (fst (recursive_embed_cluster_summarize env texts level n_levels))"
    by (rule recursive_events) (use c in auto)
  then show ?thesis using assms(2) by (auto simp: list_all_iff)
qed

text \<open>
  Claim C9.  With at most \<open>dim + 1\<close> embeddings, \<open>perform_clustering\<close> returns the single
  label 0 for every embedding and takes no step: UMAP and the mixture model are not
  invoked.  So, for a non-negative \<open>dim\<close> and a UMAP that returns one row per input row,
  every entry into \<open>get_optimal_clusters\<close> during \<open>perform_clustering\<close> is with at least 2
  embeddings, and so is every entry during a run of the recursive routine, which passes
  10 for \<open>dim\<close>; and with at least 2 embeddings (and \<open>max_clusters\<close> at least 2, as the
  default 50 is) the range of candidates is not empty and, when the fits succeed, the
  argmin exists and a candidate is returned.
\<close>

theorem small_input_single_cluster:
  "(int (length embeddings) \<le> dims + 1 \<longrightarrow>
      perform_clustering env embeddings dims threshold = ([], Inr (map (\<lambda>_. [0]) embeddings)))
   \<and> (0 \<le> dims1 \<and> umap_keeps_rows env1
        \<and> OptimalClusters X1 \<in> set (fst (perform_clustering env1 embeddings1 dims1 threshold1)) \<longrightarrow>
      2 \<le> length X1)
   \<and> (umap_keeps_rows env3
        \<and> OptimalClusters X3
             \<in> set (fst (recursive_embed_cluster_summarize env3 texts3 level3 n_levels3)) \<longrightarrow>
      2 \<le> length X3)
   \<and> (2 \<le> length X2 \<and> 2 \<le> max_clusters
        \<and> (\<forall>c\<in>{1..<min max_clusters (length X2)}. \<exists>b. gm_bic env2 c rs X2 = Inr b) \<longrightarrow>
      [1..<min max_clusters (length X2)] \<noteq> []
      \<and> (\<exists>t n. get_optimal_clusters env2 X2 max_clusters rs = (t, Inr n)
             \<and> n \<in> {1..<min max_clusters (length X2)}))"
  using perform_clustering_small[of embeddings dims env threshold]
    optimal_clusters_reached[of dims1 env1 X1 embeddings1 threshold1]
    optimal_clusters_reached_in_run[of env3 X3 texts3 level3 n_levels3]
    get_optimal_clusters_defined[of X2 max_clusters env2 rs]
  by blast

subsection \<open>The routine on the example services\<close>

lemma twelve_level_one:
  "\<not> isl (snd (embed_cluster_summarize_texts raptor_example twelve_texts 1))"
  by code_simp

lemma twelve_nunique:
  "nunique (snd (projr (snd (embed_cluster_summarize_texts raptor_example twelve_texts 1)))) = 2"
  by code_simp

lemma twelve_run:
  "\<not> isl (snd (recursive_embed_cluster_summarize raptor_example twelve_texts 1 3))"
  by code_simp

lemma empty_level_one:
  "embed_cluster_summarize_texts raptor_example [] 1 = ([Embed []], Inl KeyError)"
  by code_simp

lemma single_level_one:
  "embed_cluster_summarize_texts raptor_example [''a''] 1 =
     ([Embed [''a''], LLMInvoke ''a''],
      Inr ([\<lparr>c_text = ''a'', c_embd = [1], c_cluster = [0]\<rparr>],
           [\<lparr>s_summaries = ''a'', s_level = 1, s_cluster = 0\<rparr>]))"
  by code_simp

lemma Inr_projr: "\<not> isl (snd p) \<Longrightarrow> p = (fst p, Inr (projr (snd p)))"
  by (cases p) auto

lemma Inr_projr_pair: "\<not> isl (snd p) \<Longrightarrow> p = (fst p, Inr (fst (projr (snd p)), snd (projr (snd p))))"
  by (cases p) auto

theorem recursion_condition_witness:
  "recursive_embed_cluster_summarize raptor_example [] 1 3 = ([Embed []], Inl KeyError)
   \<and> (1 :: int) < 3
   \<and> nunique (snd (projr (snd (embed_cluster_summarize_texts raptor_example twelve_texts 1)))) = 2
   \<and> (\<exists>t' r. recursive_embed_cluster_summarize raptor_example twelve_texts 1 3 =
         (fst (embed_cluster_summarize_texts raptor_example twelve_texts 1)
            @ Embed (map s_summaries
                 (snd (projr (snd (embed_cluster_summarize_texts raptor_example twelve_texts 1))))) # t',
          r))
   \<and> recursive_embed_cluster_summarize raptor_example [''a''] 1 3 =
       ([Embed [''a''], LLMInvoke ''a''],
        Inr [(1, [\<lparr>c_text = ''a'', c_embd = [1], c_cluster = [0]\<rparr>],
                 [\<lparr>s_summaries = ''a'', s_level = 1, s_cluster = 0\<rparr>])])
   \<and> nunique [\<lparr>s_summaries = ''a'', s_level = 1, s_cluster = 0\<rparr>]
       = card (\<Union>row\<in>set [\<lparr>c_text = ''a'', c_embd = [1], c_cluster = [0]\<rparr>]. set (c_cluster row))"
proof -
  let ?E = "embed_cluster_summarize_texts raptor_example twelve_texts 1"
  let ?dfc = "fst (projr (snd ?E))"
  let ?dfs = "snd (projr (snd ?E))"
  let ?row = "\<lparr>c_text = ''a'', c_embd = [1], c_cluster = [0]\<rparr>"
  let ?srow = "\<lparr>s_summaries = ''a'', s_level = 1, s_cluster = 0\<rparr>"
  have e1: "?E = (fst ?E, Inr (?dfc, ?dfs))"
    using twelve_level_one by (rule Inr_projr_pair)
  have c1: "(1 :: int) < 3 \<and> nunique ?dfs > 1"
    using twelve_nunique by simp
  have c2: "\<not> ((1 :: int) < 3 \<and> nunique [?srow] > 1)"
    by code_simp
  note T = recursion_condition[where env = raptor_example and texts = "[]" and level = 1
      and t = "[Embed []]" and e = KeyError and n_levels = 3
      and ?env1.0 = raptor_example and ?texts1.0 = twelve_texts and ?level1.0 = 1
      and ?t1.0 = "fst ?E" and ?dfc1.0 = ?dfc and ?dfs1.0 = ?dfs and ?n_levels1.0 = 3
      and ?env2.0 = raptor_example and ?texts2.0 = "[''a'']" and ?level2.0 = 1
      and ?t2.0 = "[Embed [''a''], LLMInvoke ''a'']" and ?dfc2.0 = "[?row]" and ?dfs2.0 = "[?srow]"
      and ?n_levels2.0 = 3
      and ?env3.0 = raptor_example and ?texts3.0 = "[''a'']" and ?level3.0 = 1
      and ?t3.0 = "[Embed [''a''], LLMInvoke ''a'']" and ?dfc3.0 = "[?row]" and ?dfs3.0 = "[?srow]"]
  have A: "recursive_embed_cluster_summarize raptor_example [] 1 3 = ([Embed []], Inl KeyError)"
    using T empty_level_one by blast
  have B: "\<exists>t' r. recursive_embed_cluster_summarize raptor_example twelve_texts 1 3 =
         (fst ?E @ Embed (map s_summaries ?dfs) # t', r)"
    using T e1 c1 by blast
  have C: "recursive_embed_cluster_summarize raptor_example [''a''] 1 3 =
       ([Embed [''a''], LLMInvoke ''a''], Inr [(1, [?row], [?srow])])"
    using T single_level_one c2 by blast
  have D: "nunique [?srow] = card (\<Union>row\<in>set [?row]. set (c_cluster row))"
    using T single_level_one by blast
  show ?thesis
    using A B C D twelve_nunique by simp
qed

theorem recursion_levels_witness:
  "(1 :: int) \<le> 3
   \<and> \<not> isl (snd (recursive_embed_cluster_summarize raptor_example twelve_texts 1 3))
   \<and> (\<exists>L. 1 \<le> L \<and> L \<le> 3 \<and>
         map fst (projr (snd (recursive_embed_cluster_summarize raptor_example twelve_texts 1 3))) = [1..L])
   \<and> levels_run (fst (recursive_embed_cluster_summarize raptor_example twelve_texts 1 3))
       = length (projr (snd (recursive_embed_cluster_summarize raptor_example twelve_texts 1 3)))"
proof -
  let ?R = "recursive_embed_cluster_summarize raptor_example twelve_texts 1 3"
  have r: "?R = (fst ?R, Inr (projr (snd ?R)))"
    using twelve_run by (rule Inr_projr)
  have n: "(1 :: int) \<le> 3" by simp
  note T = recursion_levels[where ?env1.0 = raptor_example and ?texts1.0 = twelve_texts
      and ?level1.0 = 1 and ?n_levels1.0 = 3 and ?t1.0 = "fst ?R" and ?results1.0 = "projr (snd ?R)"
      and ?env2.0 = raptor_example and ?texts2.0 = twelve_texts
      and ?n_levels2.0 = 3 and ?t2.0 = "fst ?R" and ?results2.0 = "projr (snd ?R)"]
  have A: "\<exists>L. 1 \<le> L \<and> L \<le> 3 \<and> map fst (projr (snd ?R)) = [1..L]"
    using T r n by blast
  have B: "levels_run (fst ?R) = length (projr (snd ?R))"
    using T r by blast
  show ?thesis using A B twelve_run by simp
qed

lemma gmm_example:
  "GMM_cluster raptor_example [[0], [1], [5]] (1 / 10) 0 =
     ([OptimalClusters [[0], [1], [5]], GMMFit 1 224 [[0], [1], [5]],
       GMMFit 2 224 [[0], [1], [5]], GMMFit 2 0 [[0], [1], [5]]],
      Inr ([[0], [0], [1]], 2))"
  by code_simp

lemma example_bics: "\<forall>c\<in>{1..<min 50 (length [[0], [1], [5 :: rat]])}. \<exists>b. gm_bic raptor_example c rs [[0], [1], [5]] = Inr b"
  by (simp add: raptor_example_def)

lemma example_probas: "\<forall>c\<in>{1..<min 50 (length [[0], [1], [5 :: rat]])}. \<exists>p. gm_predict_proba raptor_example c rs [[0], [1], [5]] = Inr p"
  by (simp add: raptor_example_def)

theorem GMM_cluster_soft_assignment_witness:
  "2 \<le> length [[0], [1], [5 :: rat]]
   \<and> (\<exists>t labels n. GMM_cluster raptor_example [[0], [1], [5]] (1 / 10) 0 = (t, Inr (labels, n)))
   \<and> GMM_cluster raptor_example [[0], [1], [5]] (1 / 10) 0 =
     ([OptimalClusters [[0], [1], [5]], GMMFit 1 224 [[0], [1], [5]],
       GMMFit 2 224 [[0], [1], [5]], GMMFit 2 0 [[0], [1], [5]]],
      Inr ([[0], [0], [1]], 2))
   \<and> (\<exists>t0. get_optimal_clusters raptor_example [[0], [1], [5]] 50 RANDOM_SEED = (t0, Inr 2))
   \<and> bic_value raptor_example RANDOM_SEED [[0], [1], [5]] 2
         \<le> bic_value raptor_example RANDOM_SEED [[0], [1], [5]] 1
   \<and> (\<exists>probs. gm_predict_proba raptor_example 2 0 [[0], [1], [5]] = Inr probs
         \<and> (\<forall>i<length probs. set ([[0], [0], [1]] ! i)
               = {j. j < length (probs ! i) \<and> 1 / 10 < probs ! i ! j}))"
proof -
  let ?X = "[[0], [1], [5 :: rat]]"
  have l: "2 \<le> length ?X" by simp
  note T = GMM_cluster_soft_assignment[where X = ?X and env = raptor_example and rs = 0
      and threshold = "1 / 10" and ?env1.0 = raptor_example and ?X1.0 = ?X
      and ?threshold1.0 = "1 / 10" and ?rs1.0 = 0
      and ?t1.0 = "[OptimalClusters ?X, GMMFit 1 224 ?X, GMMFit 2 224 ?X, GMMFit 2 0 ?X]"
      and ?labels1.0 = "[[0], [0], [1]]" and ?n1.0 = 2]
  have A: "\<exists>t labels n. GMM_cluster raptor_example ?X (1 / 10) 0 = (t, Inr (labels, n))"
    using T l example_bics[of RANDOM_SEED] example_probas[of 0] by blast
  from T gmm_example have B:
    "(\<exists>t0. get_optimal_clusters raptor_example ?X 50 RANDOM_SEED = (t0, Inr 2))
       \<and> 2 \<in> {1..<min 50 (length ?X)}
       \<and> (\<forall>c\<in>{1..<min 50 (length ?X)}. (\<exists>b. gm_bic raptor_example c RANDOM_SEED ?X = Inr b)
             \<and> bic_value raptor_example RANDOM_SEED ?X 2 \<le> bic_value raptor_example RANDOM_SEED ?X c)
       \<and> (\<forall>c\<in>{1..<2}. bic_value raptor_example RANDOM_SEED ?X 2 < bic_value raptor_example RANDOM_SEED ?X c)
       \<and> (\<exists>probs. gm_predict_proba raptor_example 2 0 ?X = Inr probs \<and> length [[0], [0], [1::nat]] = length probs
             \<and> (\<forall>i<length probs.
                    set ([[0], [0], [1]] ! i) = {j. j < length (probs ! i) \<and> 1 / 10 < probs ! i ! j}
                    \<and> sorted ([[0], [0], [1::nat]] ! i) \<and> distinct ([[0], [0], [1::nat]] ! i)))"
    by blast
  have "1 \<in> {1..<min 50 (length ?X)}" by simp
  with B have C: "bic_value raptor_example RANDOM_SEED ?X 2 \<le> bic_value raptor_example RANDOM_SEED ?X 1"
    by blast
  show ?thesis
    using l A B C gmm_example by blast
qed

lemma example_keeps_rows: "umap_keeps_rows raptor_example"
  by (simp add: umap_keeps_rows_def raptor_example_def)

lemma twelve_reached:
  "OptimalClusters [[1], [2], [3], [4], [5], [6], [7], [8], [9], [10], [11], [12]]
     \<in> set (fst (recursive_embed_cluster_summarize raptor_example twelve_texts 1 3))"
  by code_simp

lemma example_reached:
  "OptimalClusters [[0], [1]] \<in> set (fst (perform_clustering raptor_example [[0], [1], [5]] 0 (1 / 10)))"
  by code_simp

theorem small_input_single_cluster_witness:
  "int (length [[0], [1 :: rat]]) \<le> 1 + 1
   \<and> perform_clustering raptor_example [[0], [1]] 1 (1 / 10) = ([], Inr [[0], [0]])
   \<and> umap_keeps_rows raptor_example
   \<and> OptimalClusters [[0], [1]] \<in> set (fst (perform_clustering raptor_example [[0], [1], [5]] 0 (1 / 10)))
   \<and> 2 \<le> length [[0], [1 :: rat]]
   \<and> OptimalClusters [[1], [2], [3], [4], [5], [6], [7], [8], [9], [10], [11], [12]]
         \<in> set (fst (recursive_embed_cluster_summarize raptor_example twelve_texts 1 3))
   \<and> 2 \<le> length [[1], [2], [3], [4], [5], [6], [7], [8], [9], [10], [11], [12 :: rat]]
   \<and> [1..<min 50 (length [[0], [1], [5 :: rat]])] \<noteq> []
   \<and> (\<exists>t n. get_optimal_clusters raptor_example [[0], [1], [5]] 50 224 = (t, Inr n)
         \<and> n \<in> {1..<min 50 (length [[0], [1], [5 :: rat]])})"
proof -
  have a: "int (length [[0], [1 :: rat]]) \<le> 1 + 1" by simp
  have b: "(0 :: int) \<le> 0" by simp
  have c: "2 \<le> length [[0], [1], [5 :: rat]] \<and> 2 \<le> (50 :: nat)" by simp
  note T = small_input_single_cluster[where embeddings = "[[0], [1]]" and dims = 1
      and env = raptor_example and threshold = "1 / 10"
      and ?dims1.0 = 0 and ?env1.0 = raptor_example and ?X1.0 = "[[0], [1]]"
      and ?embeddings1.0 = "[[0], [1], [5]]" and ?threshold1.0 = "1 / 10"
      and ?X2.0 = "[[0], [1], [5]]" and max_clusters = 50 and ?env2.0 = raptor_example and rs = 224
      and ?env3.0 = raptor_example and ?texts3.0 = twelve_texts and ?level3.0 = 1 and ?n_levels3.0 = 3
      and ?X3.0 = "[[1], [2], [3], [4], [5], [6], [7], [8], [9], [10], [11], [12]]"]
  have A: "perform_clustering raptor_example [[0], [1]] 1 (1 / 10) = ([], Inr (map (\<lambda>_. [0]) [[0], [1 :: rat]]))"
    using T a by blast
  have B: "2 \<le> length [[0], [1 :: rat]]"
    using T b example_keeps_rows example_reached by blast
  have C: "[1..<min 50 (length [[0], [1], [5 :: rat]])] \<noteq> []
     \<and> (\<exists>t n. get_optimal_clusters raptor_example [[0], [1], [5]] 50 224 = (t, Inr n)
         \<and> n \<in> {1..<min 50 (length [[0], [1], [5 :: rat]])})"
    using T c example_bics[of 224] by blast
  have D: "2 \<le> length [[1], [2], [3], [4], [5], [6], [7], [8], [9], [10], [11], [12 :: rat]]"
    using T example_keeps_rows twelve_reached by blast
  show ?thesis
    using a A B C D example_keeps_rows example_reached twelve_reached by simp
qed

subsection \<open>The order of the steps, the cluster ids, the summaries\<close>



























end
